theory Spec2Isabelle
  imports Main "HOL-Library.Word" "HOL-Library.Sublist" "HOL-Library.Multiset"
begin

section \<open>JavaScript strings\<close>

text \<open>
  A JavaScript string is a sequence of UTF-16 code units; \<open>s.length\<close> counts code units.
  ASCII literals of the source are written \<open>js ''...''\<close>.
\<close>

type_synonym jschar = "16 word"
type_synonym jsstring = "jschar list"

definition chr :: "char \<Rightarrow> jschar" where
  "chr c = of_char c"

definition js :: "string \<Rightarrow> jsstring" where
  "js s = map chr s"

text \<open>Line terminators and white space of ECMAScript (\<open>\s\<close>, \<open>trim\<close>, \<open>.\<close>, \<open>^\<close>, \<open>$\<close>).\<close>

definition in_ranges :: "(jschar \<times> jschar) list \<Rightarrow> jschar \<Rightarrow> bool" where
  "in_ranges rs c = list_ex (\<lambda>r. fst r \<le> c \<and> c \<le> snd r) rs"

definition line_terminators :: "(jschar \<times> jschar) list" where
  "line_terminators = [(0x0A, 0x0A), (0x0D, 0x0D), (0x2028, 0x2029)]"

definition white_space :: "(jschar \<times> jschar) list" where
  "white_space = [(0x09, 0x0D), (0x20, 0x20), (0xA0, 0xA0), (0x1680, 0x1680),
     (0x2000, 0x200A), (0x2028, 0x2029), (0x202F, 0x202F), (0x205F, 0x205F),
     (0x3000, 0x3000), (0xFEFF, 0xFEFF)]"

definition is_lt :: "jschar \<Rightarrow> bool" where
  "is_lt c = in_ranges line_terminators c"

definition is_ws :: "jschar \<Rightarrow> bool" where
  "is_ws c = in_ranges white_space c"

text \<open>\<open>String.prototype.trim\<close>.\<close>

definition trim :: "jsstring \<Rightarrow> jsstring" where
  "trim s = rev (dropWhile is_ws (rev (dropWhile is_ws s)))"

section \<open>Regular expressions (the fragment the component uses)\<close>

text \<open>
  Patterns are matched by backtracking, in the priority order of ECMAScript: a greedy
  quantifier tries one more iteration first, a lazy one tries to stop first, and an
  iteration that consumes nothing is rejected. The matcher returns every way to match, most
  preferred first; the match taken is the head of that list.
\<close>

datatype re =
    Eps
  | Lit jschar
  | Cls bool "(jschar \<times> jschar) list"
  | Dot
  | Bol
  | Eol
  | Behind "(jschar \<times> jschar) list"
  | Seq re re
  | Grp nat re
  | Opt re
  | Star re
  | LStar re

text \<open>
  \<open>Cls neg rs\<close> is a character class \<open>[...]\<close> (\<open>[^...]\<close> when \<open>neg\<close>) of ranges;
  \<open>Behind rs\<close> is the look-behind \<open>(?<=[...])\<close> of one class; \<open>Grp i r\<close> is the \<open>i\<close>-th
  capture group; \<open>LStar\<close> is \<open>*?\<close>.
\<close>

definition Plus :: "re \<Rightarrow> re" where
  "Plus r = Seq r (Star r)"

fun seqs :: "re list \<Rightarrow> re" where
  "seqs [] = Eps"
| "seqs [r] = r"
| "seqs (r # rs) = Seq r (seqs rs)"

definition str :: "string \<Rightarrow> re" where
  "str s = seqs (map (\<lambda>c. Lit (chr c)) s)"

definition one :: "char \<Rightarrow> (jschar \<times> jschar) list" where
  "one c = [(chr c, chr c)]"

record flags =
  ci :: bool
  ml :: bool
  dotall :: bool

text \<open>
  Canonicalisation under the \<open>i\<close> flag (no \<open>u\<close> flag): upper-casing of one code unit,
  where a code unit above 127 never maps to one below 128. Every literal and every class
  bound of the patterns below is ASCII, so only the ASCII letters are folded.
\<close>

definition canon :: "jschar \<Rightarrow> jschar" where
  "canon c = (if 0x61 \<le> c \<and> c \<le> 0x7A then c - 0x20 else c)"

definition uncanon :: "jschar \<Rightarrow> jschar" where
  "uncanon c = (if 0x41 \<le> c \<and> c \<le> 0x5A then c + 0x20 else c)"

definition lit_match :: "flags \<Rightarrow> jschar \<Rightarrow> jschar \<Rightarrow> bool" where
  "lit_match f a c = (if ci f then canon a = canon c else a = c)"

definition cls_match :: "flags \<Rightarrow> bool \<Rightarrow> (jschar \<times> jschar) list \<Rightarrow> jschar \<Rightarrow> bool" where
  "cls_match f neg rs c =
     (let found = (if ci f then in_ranges rs c \<or> in_ranges rs (canon c) \<or> in_ranges rs (uncanon (canon c))
                   else in_ranges rs c)
      in if neg then \<not> found else found)"

record mstate =
  behind :: "jschar option"
  rest :: jsstring
  caps :: "(nat \<times> jsstring) list"

function ms :: "flags \<Rightarrow> re \<Rightarrow> mstate \<Rightarrow> mstate list" where
  "ms f Eps st = [st]"
| "ms f (Lit a) st =
     (case rest st of [] \<Rightarrow> []
      | c # s \<Rightarrow> if lit_match f a c then [st\<lparr>behind := Some c, rest := s\<rparr>] else [])"
| "ms f (Cls neg rs) st =
     (case rest st of [] \<Rightarrow> []
      | c # s \<Rightarrow> if cls_match f neg rs c then [st\<lparr>behind := Some c, rest := s\<rparr>] else [])"
| "ms f Dot st =
     (case rest st of [] \<Rightarrow> []
      | c # s \<Rightarrow> if dotall f \<or> \<not> is_lt c then [st\<lparr>behind := Some c, rest := s\<rparr>] else [])"
| "ms f Bol st =
     (case behind st of None \<Rightarrow> [st]
      | Some c \<Rightarrow> if ml f \<and> is_lt c then [st] else [])"
| "ms f Eol st =
     (case rest st of [] \<Rightarrow> [st]
      | c # s \<Rightarrow> if ml f \<and> is_lt c then [st] else [])"
| "ms f (Behind rs) st =
     (case behind st of None \<Rightarrow> []
      | Some c \<Rightarrow> if cls_match f False rs c then [st] else [])"
| "ms f (Seq r1 r2) st = concat (map (ms f r2) (ms f r1 st))"
| "ms f (Grp i r) st =
     map (\<lambda>st'. st'\<lparr>caps := (i, take (length (rest st) - length (rest st')) (rest st)) # caps st'\<rparr>)
       (ms f r st)"
| "ms f (Opt r) st = ms f r st @ [st]"
| "ms f (Star r) st =
     concat (map (\<lambda>st'. if length (rest st') < length (rest st) then ms f (Star r) st' else [])
               (ms f r st)) @ [st]"
| "ms f (LStar r) st =
     st # concat (map (\<lambda>st'. if length (rest st') < length (rest st) then ms f (LStar r) st' else [])
                    (ms f r st))"
  by pat_completeness auto

termination
  by (relation "inv_image (less_than <*lex*> less_than) (\<lambda>(f, r, st). (size r, length (rest st)))")
    auto

text \<open>One match attempt at the current index: the length matched and the captures.\<close>

definition re_exec :: "flags \<Rightarrow> re \<Rightarrow> jschar option \<Rightarrow> jsstring \<Rightarrow> (nat \<times> (nat \<times> jsstring) list) option" where
  "re_exec f r p s =
     (case ms f r \<lparr>behind = p, rest = s, caps = []\<rparr> of
        [] \<Rightarrow> None
      | st # _ \<Rightarrow> Some (length s - length (rest st), caps st))"

text \<open>Replacement templates: literal text and \<open>$n\<close>; a group that took no part is empty.\<close>

datatype tpiece = T jsstring | G nat

fun subst :: "tpiece list \<Rightarrow> (nat \<times> jsstring) list \<Rightarrow> jsstring" where
  "subst [] cs = []"
| "subst (T t # ts) cs = t @ subst ts cs"
| "subst (G i # ts) cs = (case map_of cs i of None \<Rightarrow> [] | Some w \<Rightarrow> w) @ subst ts cs"

text \<open>
  \<open>s.replace(/r/g, t)\<close>: scan from index 0; at a match emit the replacement and go on after
  it (\<open>skip\<close> counts the code units of the match still to pass over); after an empty match
  or a failure copy one code unit and go on at the next index. The index equal to the
  length is tried too.
\<close>

fun gsub_from :: "flags \<Rightarrow> re \<Rightarrow> tpiece list \<Rightarrow> jschar option \<Rightarrow> nat \<Rightarrow> jsstring \<Rightarrow> jsstring" where
  "gsub_from f r t p skip [] =
     (if skip = 0 then (case re_exec f r p [] of None \<Rightarrow> [] | Some m \<Rightarrow> subst t (snd m)) else [])"
| "gsub_from f r t p skip (c # s) =
     (if skip > 0 then gsub_from f r t (Some c) (skip - 1) s
      else (case re_exec f r p (c # s) of
              None \<Rightarrow> c # gsub_from f r t (Some c) 0 s
            | Some m \<Rightarrow>
                if fst m = 0 then subst t (snd m) @ c # gsub_from f r t (Some c) 0 s
                else subst t (snd m) @ gsub_from f r t (Some c) (fst m - 1) s))"

definition gsub :: "flags \<Rightarrow> re \<Rightarrow> tpiece list \<Rightarrow> jsstring \<Rightarrow> jsstring" where
  "gsub f r t s = gsub_from f r t None 0 s"

text \<open>\<open>s.replace(/r/, t)\<close> without the \<open>g\<close> flag: the first match only.\<close>

fun sub1_from :: "flags \<Rightarrow> re \<Rightarrow> tpiece list \<Rightarrow> jschar option \<Rightarrow> jsstring \<Rightarrow> jsstring" where
  "sub1_from f r t p [] =
     (case re_exec f r p [] of None \<Rightarrow> [] | Some m \<Rightarrow> subst t (snd m))"
| "sub1_from f r t p (c # s) =
     (case re_exec f r p (c # s) of
        None \<Rightarrow> c # sub1_from f r t (Some c) s
      | Some m \<Rightarrow> subst t (snd m) @ drop (fst m) (c # s))"

definition sub1 :: "flags \<Rightarrow> re \<Rightarrow> tpiece list \<Rightarrow> jsstring \<Rightarrow> jsstring" where
  "sub1 f r t s = sub1_from f r t None s"

text \<open>
  \<open>s.replace(/[...]/gu, "")\<close> for a class of code-point ranges: under the \<open>u\<close> flag the
  scan goes by code points, a high surrogate followed by a low one being one code point.
\<close>

definition is_hi :: "jschar \<Rightarrow> bool" where
  "is_hi c = (0xD800 \<le> c \<and> c \<le> 0xDBFF)"

definition is_lo :: "jschar \<Rightarrow> bool" where
  "is_lo c = (0xDC00 \<le> c \<and> c \<le> 0xDFFF)"

definition code_point :: "jschar \<Rightarrow> jschar \<Rightarrow> int" where
  "code_point h l = 0x10000 + (uint h - 0xD800) * 0x400 + (uint l - 0xDC00)"

definition in_cps :: "(int \<times> int) list \<Rightarrow> int \<Rightarrow> bool" where
  "in_cps rs n = list_ex (\<lambda>r. fst r \<le> n \<and> n \<le> snd r) rs"

fun strip_code_points :: "(int \<times> int) list \<Rightarrow> jsstring \<Rightarrow> jsstring" where
  "strip_code_points rs [] = []"
| "strip_code_points rs [c] = (if in_cps rs (uint c) then [] else [c])"
| "strip_code_points rs (h # l # s) =
     (if is_hi h \<and> is_lo l
      then (if in_cps rs (code_point h l) then strip_code_points rs s
            else h # l # strip_code_points rs s)
      else (if in_cps rs (uint h) then strip_code_points rs (l # s)
            else h # strip_code_points rs (l # s)))"

definition flags_g :: flags where
  "flags_g = \<lparr>ci = False, ml = False, dotall = False\<rparr>"

definition flags_gm :: flags where
  "flags_gm = \<lparr>ci = False, ml = True, dotall = False\<rparr>"

definition flags_gim :: flags where
  "flags_gim = \<lparr>ci = True, ml = True, dotall = False\<rparr>"

definition flags_s :: flags where
  "flags_s = \<lparr>ci = False, ml = False, dotall = True\<rparr>"

section \<open>PDF export: cleanText\<close>

text \<open>
  \<^verbatim>\<open>
  cleaned = cleaned.replace(/\[([^\]]+)\]\(https?:\/\/[^\)]+\)/g, '');
  cleaned = cleaned.replace(/https?:\/\/\S+/g, '');
  cleaned = cleaned.replace(/\*\*(.*?)\*\*/g, '$1');
  cleaned = cleaned.replace(/__(.*?)__/g, '$1');
  cleaned = cleaned.replace(/\*(.*?)\*/g, '$1');
  cleaned = cleaned.replace(/_(.*?)_/g, '$1');
  cleaned = cleaned.replace(/`([^`]+)`/g, '$1');
  cleaned = cleaned.replace(/\[\]/g, '');
  cleaned = cleaned.replace(/\(\)/g, '');
  cleaned = cleaned.replace(/\s+/g, ' ');
  cleaned = cleaned.trim();
  \<close>
\<close>

definition re_citation :: re where
  "re_citation = seqs [Lit (chr CHR ''[''), Grp 1 (Plus (Cls True (one CHR '']''))),
     Lit (chr CHR '']''), Lit (chr CHR ''(''), str ''http'', Opt (Lit (chr CHR ''s'')),
     str ''://'', Plus (Cls True (one CHR '')'')), Lit (chr CHR '')'')]"

definition re_url :: re where
  "re_url = seqs [str ''http'', Opt (Lit (chr CHR ''s'')), str ''://'',
     Plus (Cls True white_space)]"

definition re_wrapped :: "string \<Rightarrow> re" where
  "re_wrapped d = seqs [str d, Grp 1 (LStar Dot), str d]"

definition re_inline_code :: re where
  "re_inline_code = seqs [Lit (chr (CHR 0x60)), Grp 1 (Plus (Cls True (one (CHR 0x60)))),
     Lit (chr (CHR 0x60))]"

definition re_spaces :: re where
  "re_spaces = Plus (Cls False white_space)"

definition cleanText :: "jsstring \<Rightarrow> jsstring" where
  "cleanText text =
     (let cleaned = text;
          cleaned = gsub flags_g re_citation [] cleaned;
          cleaned = gsub flags_g re_url [] cleaned;
          cleaned = gsub flags_g (re_wrapped ''**'') [G 1] cleaned;
          cleaned = gsub flags_g (re_wrapped ''__'') [G 1] cleaned;
          cleaned = gsub flags_g (re_wrapped ''*'') [G 1] cleaned;
          cleaned = gsub flags_g (re_wrapped ''_'') [G 1] cleaned;
          cleaned = gsub flags_g re_inline_code [G 1] cleaned;
          cleaned = gsub flags_g (str ''[]'') [] cleaned;
          cleaned = gsub flags_g (str ''()'') [] cleaned;
          cleaned = gsub flags_g re_spaces [T (js '' '')] cleaned;
          cleaned = trim cleaned
      in cleaned)"

section \<open>Plain-text copy: handleCopyPlainText\<close>

text \<open>
  \<^verbatim>\<open>
  const text = (content || "")
    .replace(/```[\s\S]*?```/g, "")
    .replace(/`([^`]+)`/g, "$1")
    .replace(/^[#>\-\*\+]+\s+/gm, "")
    .replace(/\[([^\]]+)\]\(([^)]+)\)/g, "$1")
    .replace(/!\[([^\]]*)\]\(([^)]+)\)/g, "$1")
    .replace(/\n{3,}/g, "\n\n")
    .replace(/[\u{1F300}-\u{1FAFF}\u{2600}-\u{26FF}\u{2700}-\u{27BF}]/gu, "")
    .trim();
  \<close>
  \<open>content\<close> has type \<open>string\<close>, and \<open>"" || ""\<close> is \<open>""\<close>.
\<close>

definition any_unit :: "(jschar \<times> jschar) list" where
  "any_unit = [(0x0000, 0xFFFF)]"

definition nl :: jschar where
  "nl = 0x0A"

fun at_least :: "nat \<Rightarrow> re \<Rightarrow> re" where
  "at_least 0 r = Star r"
| "at_least (Suc n) r = Seq r (at_least n r)"

definition re_fence :: re where
  "re_fence = seqs [str [CHR 0x60, CHR 0x60, CHR 0x60], LStar (Cls False any_unit),
     str [CHR 0x60, CHR 0x60, CHR 0x60]]"

definition re_marker :: re where
  "re_marker = seqs [Bol,
     Plus (Cls False (one CHR ''#'' @ one CHR ''>'' @ one CHR ''-'' @ one CHR ''*'' @ one CHR ''+'')),
     Plus (Cls False white_space)]"

definition re_link :: re where
  "re_link = seqs [Lit (chr CHR ''[''), Grp 1 (Plus (Cls True (one CHR '']''))),
     Lit (chr CHR '']''), Lit (chr CHR ''(''), Grp 2 (Plus (Cls True (one CHR '')''))),
     Lit (chr CHR '')'')]"

definition re_image :: re where
  "re_image = seqs [Lit (chr CHR ''!''), Lit (chr CHR ''[''), Grp 1 (Star (Cls True (one CHR '']''))),
     Lit (chr CHR '']''), Lit (chr CHR ''(''), Grp 2 (Plus (Cls True (one CHR '')''))),
     Lit (chr CHR '')'')]"

definition re_blank_lines :: re where
  "re_blank_lines = at_least 3 (Lit nl)"

definition emoji_ranges :: "(int \<times> int) list" where
  "emoji_ranges = [(0x1F300, 0x1FAFF), (0x2600, 0x26FF), (0x2700, 0x27BF)]"

definition plain_text :: "jsstring \<Rightarrow> jsstring" where
  "plain_text content =
     trim (strip_code_points emoji_ranges
       (gsub flags_g re_blank_lines [T [nl, nl]]
         (gsub flags_g re_image [G 1]
           (gsub flags_g re_link [G 1]
             (gsub flags_gm re_marker []
               (gsub flags_g re_inline_code [G 1]
                 (gsub flags_g re_fence [] content)))))))"

text \<open>
  The handler awaits the clipboard write and marks the message as copied; a rejected write
  is caught and logged, and nothing else happens. \<open>write_ok\<close> says whether
  \<open>navigator.clipboard.writeText\<close> resolves.
\<close>

record copy_state =
  clipboard :: "jsstring option"
  copiedMessageId :: "jsstring option"

definition handleCopyPlainText :: "bool \<Rightarrow> jsstring \<Rightarrow> jsstring \<Rightarrow> copy_state \<Rightarrow> copy_state" where
  "handleCopyPlainText write_ok content messageId st =
     (let text = plain_text content
      in if write_ok then st\<lparr>clipboard := Some text, copiedMessageId := Some messageId\<rparr>
         else st)"

section \<open>HTML export: markdownToHtml\<close>

text \<open>
  \<^verbatim>\<open>
  let html = markdown;
  html = html.replace(/^### (.*$)/gim, '<h3>$1</h3>');
  html = html.replace(/^## (.*$)/gim, '<h2>$1</h2>');
  html = html.replace(/^# (.*$)/gim, '<h1>$1</h1>');
  html = html.replace(/\*\*(.*?)\*\*/gim, '<strong>$1</strong>');
  html = html.replace(/__(.*?)__/gim, '<strong>$1</strong>');
  html = html.replace(/\*(.*?)\*/gim, '<em>$1</em>');
  html = html.replace(/_(.*?)_/gim, '<em>$1</em>');
  html = html.replace(/\[([^\]]+)\]\(([^)]+)\)/gim,
                      '<a href="$2" target="_blank" rel="noopener noreferrer">$1</a>');
  html = html.replace(/```([a-z]*)\n([\s\S]*?)```/gim,
                      '<pre><code class="language-$1">$2</code></pre>');
  html = html.replace(/`([^`]+)`/gim, '<code>$1</code>');
  html = html.replace(/^\* (.*$)/gim, '<li>$1</li>');
  html = html.replace(/^- (.*$)/gim, '<li>$1</li>');
  html = html.replace(/(<li>.*<\/li>)/s, '<ul>$1</ul>');
  html = html.replace(/^> (.*$)/gim, '<blockquote>$1</blockquote>');
  html = html.replace(/^---$/gim, '<hr>');
  html = html.replace(/\n\n/gim, '</p><p>');
  html = '<p>' + html + '</p>';
  html = html.replace(/<p><\/p>/gim, '');
  return html;
  \<close>
\<close>

definition re_line :: "string \<Rightarrow> re" where
  "re_line d = seqs [Bol, str d, Grp 1 (Seq (Star Dot) Eol)]"

definition re_code_block :: re where
  "re_code_block = seqs [str [CHR 0x60, CHR 0x60, CHR 0x60],
     Grp 1 (Star (Cls False [(chr CHR ''a'', chr CHR ''z'')])), Lit nl,
     Grp 2 (LStar (Cls False any_unit)), str [CHR 0x60, CHR 0x60, CHR 0x60]]"

definition re_list_items :: re where
  "re_list_items = Grp 1 (seqs [str ''<li>'', Star Dot, str ''</li>''])"

definition re_rule :: re where
  "re_rule = seqs [Bol, str ''---'', Eol]"

definition wrap :: "string \<Rightarrow> string \<Rightarrow> tpiece list" where
  "wrap a b = [T (js a), G 1, T (js b)]"

definition anchor_template :: "tpiece list" where
  \<open>anchor_template = [T (js ''<a href="''), G 2,
     T (js ''" target="_blank" rel="noopener noreferrer">''), G 1, T (js ''</a>'')]\<close>

definition pre_template :: "tpiece list" where
  \<open>pre_template = [T (js ''<pre><code class="language-''), G 1, T (js ''">''), G 2,
     T (js ''</code></pre>'')]\<close>

definition markdownToHtml :: "jsstring \<Rightarrow> jsstring" where
  "markdownToHtml markdown =
     (let html = markdown;
          html = gsub flags_gim (re_line ''### '') (wrap ''<h3>'' ''</h3>'') html;
          html = gsub flags_gim (re_line ''## '') (wrap ''<h2>'' ''</h2>'') html;
          html = gsub flags_gim (re_line ''# '') (wrap ''<h1>'' ''</h1>'') html;
          html = gsub flags_gim (re_wrapped ''**'') (wrap ''<strong>'' ''</strong>'') html;
          html = gsub flags_gim (re_wrapped ''__'') (wrap ''<strong>'' ''</strong>'') html;
          html = gsub flags_gim (re_wrapped ''*'') (wrap ''<em>'' ''</em>'') html;
          html = gsub flags_gim (re_wrapped ''_'') (wrap ''<em>'' ''</em>'') html;
          html = gsub flags_gim re_link anchor_template html;
          html = gsub flags_gim re_code_block pre_template html;
          html = gsub flags_gim re_inline_code (wrap ''<code>'' ''</code>'') html;
          html = gsub flags_gim (re_line ''* '') (wrap ''<li>'' ''</li>'') html;
          html = gsub flags_gim (re_line ''- '') (wrap ''<li>'' ''</li>'') html;
          html = sub1 flags_s re_list_items (wrap ''<ul>'' ''</ul>'') html;
          html = gsub flags_gim (re_line ''> '') (wrap ''<blockquote>'' ''</blockquote>'') html;
          html = gsub flags_gim re_rule [T (js ''<hr>'')] html;
          html = gsub flags_gim (Seq (Lit nl) (Lit nl)) [T (js ''</p><p>'')] html;
          html = js ''<p>'' @ html @ js ''</p>'';
          html = gsub flags_gim (str ''<p></p>'') [] html
      in html)"

text \<open>
  The second copy of the component (under \<open>src/unnamed\<close>) goes on with six more
  substitutions before it returns:
  \<^verbatim>\<open>
  html = html.replace(/<p>(<h[1-6]>)/gim, '$1');
  html = html.replace(/(<\/h[1-6]>)<\/p>/gim, '$1');
  html = html.replace(/<p>(<ul>)/gim, '$1');
  html = html.replace(/(<\/ul>)<\/p>/gim, '$1');
  html = html.replace(/<p>(<pre>)/gim, '$1');
  html = html.replace(/(<\/pre>)<\/p>/gim, '$1');
  \<close>
\<close>

definition digit_1_6 :: re where
  "digit_1_6 = Cls False [(chr CHR ''1'', chr CHR ''6'')]"

definition re_p_then :: "re \<Rightarrow> re" where
  "re_p_then r = seqs [str ''<p>'', Grp 1 r]"

definition re_then_p :: "re \<Rightarrow> re" where
  "re_then_p r = seqs [Grp 1 r, str ''</p>'']"

definition markdownToHtml_unwrapped :: "jsstring \<Rightarrow> jsstring" where
  "markdownToHtml_unwrapped markdown =
     (let html = markdownToHtml markdown;
          html = gsub flags_gim (re_p_then (seqs [str ''<h'', digit_1_6, str ''>''])) [G 1] html;
          html = gsub flags_gim (re_then_p (seqs [str ''</h'', digit_1_6, str ''>''])) [G 1] html;
          html = gsub flags_gim (re_p_then (str ''<ul>'')) [G 1] html;
          html = gsub flags_gim (re_then_p (str ''</ul>'')) [G 1] html;
          html = gsub flags_gim (re_p_then (str ''<pre>'')) [G 1] html;
          html = gsub flags_gim (re_then_p (str ''</pre>'')) [G 1] html
      in html)"

section \<open>Highlights and summary\<close>

text \<open>
  Both handlers clean the message the same way and split it into sentences:
  \<^verbatim>\<open>
  const cleaned = raw
    .replace(/```[\s\S]*?```/g, " ")
    .replace(/`([^`]+)`/g, "$1")
    .replace(/^[#>\-\*\+]+\s+/gm, "")
    .replace(/\[([^\]]+)\]\(([^)]+)\)/g, "$1")
    .replace(/!\[([^\]]*)\]\(([^)]+)\)/g, "$1")
    .replace(/\s+/g, " ")
    .trim();
  if (!cleaned) return;
  const sentences = cleaned
    .split(/(?<=[\.!\?])\s+/)
    .map((s) => s.trim())
    .filter((s) => s.length > 0);
  \<close>
\<close>

definition cleaned_of :: "jsstring \<Rightarrow> jsstring" where
  "cleaned_of raw =
     trim (gsub flags_g re_spaces [T (js '' '')]
       (gsub flags_g re_image [G 1]
         (gsub flags_g re_link [G 1]
           (gsub flags_gm re_marker []
             (gsub flags_g re_inline_code [G 1]
               (gsub flags_g re_fence [T (js '' '')] raw))))))"

text \<open>
  \<open>s.split(/r/)\<close> for a pattern without capture groups: \<open>acc\<close> is the piece since the end
  of the last separator; a separator found at the current index closes the piece, unless it
  is empty and the piece is too; the index equal to the length is not tried. On the empty
  string the result is empty if the pattern matches it, and the one empty piece otherwise.
\<close>

fun split_from :: "flags \<Rightarrow> re \<Rightarrow> jschar option \<Rightarrow> jsstring \<Rightarrow> nat \<Rightarrow> jsstring \<Rightarrow> jsstring list" where
  "split_from f r p acc skip [] = [acc]"
| "split_from f r p acc skip (c # s) =
     (if skip > 0 then split_from f r (Some c) acc (skip - 1) s
      else (case re_exec f r p (c # s) of
              None \<Rightarrow> split_from f r (Some c) (acc @ [c]) 0 s
            | Some m \<Rightarrow>
                if fst m = 0 then
                  (if acc = [] then split_from f r (Some c) [c] 0 s
                   else acc # split_from f r (Some c) [c] 0 s)
                else acc # split_from f r (Some c) [] (fst m - 1) s))"

definition split_re :: "flags \<Rightarrow> re \<Rightarrow> jsstring \<Rightarrow> jsstring list" where
  "split_re f r s =
     (if s = [] then (case re_exec f r None [] of None \<Rightarrow> [[]] | Some m \<Rightarrow> [])
      else split_from f r None [] 0 s)"

definition re_sentence_end :: re where
  "re_sentence_end = Seq (Behind (one CHR ''.'' @ one CHR ''!'' @ one CHR ''?''))
     (Plus (Cls False white_space))"

definition sentences_of :: "jsstring \<Rightarrow> jsstring list" where
  "sentences_of cleaned =
     filter (\<lambda>s. length s > 0) (map trim (split_re flags_g re_sentence_end cleaned))"

text \<open>\<open>Array.prototype.join\<close>.\<close>

fun join :: "jsstring \<Rightarrow> jsstring list \<Rightarrow> jsstring" where
  "join sep [] = []"
| "join sep [x] = x"
| "join sep (x # xs) = x @ sep @ join sep xs"

record view_state =
  pinnedMessages :: "jsstring list"
  messageTagsMap :: "jsstring \<rightharpoonup> jsstring"
  highlightsByMessage :: "jsstring \<rightharpoonup> jsstring list"
  summaryByMessage :: "jsstring \<rightharpoonup> jsstring"
  expandedInsights :: "jsstring \<rightharpoonup> bool"
  expandedSummary :: "jsstring \<rightharpoonup> bool"
  localStorage :: "jsstring \<rightharpoonup> jsstring"

text \<open>
  \<^verbatim>\<open>
  const scored = sentences
    .map((s) => ({ text: s, score: Math.min(s.length, 300) }))
    .sort((a, b) => b.score - a.score);
  const top = scored.slice(0, 5).map((s) => s.text);
  setHighlightsByMessage((prev) => ({ ...prev, [messageId]: top }));
  setExpandedInsights((prev) => ({ ...prev, [messageId]: true }));
  \<close>
  \<open>Array.prototype.sort\<close> is stable (ECMAScript 2019), and the comparator orders by
  descending score, so the result is the stable sort by descending score.
\<close>

definition score :: "jsstring \<Rightarrow> nat" where
  "score s = min (length s) 300"

definition top_sentences :: "jsstring list \<Rightarrow> jsstring list" where
  "top_sentences sentences =
     (let scored = sort_key (\<lambda>a. - int (snd a)) (map (\<lambda>s. (s, score s)) sentences)
      in map fst (take 5 scored))"

definition handleGenerateHighlights :: "jsstring \<Rightarrow> jsstring \<Rightarrow> view_state \<Rightarrow> view_state" where
  "handleGenerateHighlights content messageId st =
     (let cleaned = cleaned_of content
      in if cleaned = [] then st
         else let top = top_sentences (sentences_of cleaned)
              in st\<lparr>highlightsByMessage := (highlightsByMessage st)(messageId \<mapsto> top),
                    expandedInsights := (expandedInsights st)(messageId \<mapsto> True)\<rparr>)"

text \<open>
  \<^verbatim>\<open>
  const summary = sentences.slice(0, 3).join(" ");
  setSummaryByMessage((prev) => ({ ...prev, [messageId]: summary }));
  setExpandedSummary((prev) => ({ ...prev, [messageId]: true }));
  \<close>
\<close>

definition handleGenerateSummary :: "jsstring \<Rightarrow> jsstring \<Rightarrow> view_state \<Rightarrow> view_state" where
  "handleGenerateSummary content messageId st =
     (let cleaned = cleaned_of content
      in if cleaned = [] then st
         else let summary = join (js '' '') (take 3 (sentences_of cleaned))
              in st\<lparr>summaryByMessage := (summaryByMessage st)(messageId \<mapsto> summary),
                    expandedSummary := (expandedSummary st)(messageId \<mapsto> True)\<rparr>)"

section \<open>Pins and tags\<close>

text \<open>
  The handlers compute the new list or map from the previous one, mirror it to local
  storage as JSON and return it; a failing \<open>setItem\<close> is caught and logged, and the new
  value is returned all the same. \<open>JSON.stringify\<close> is the parameter \<open>enc\<close>, and
  \<open>can_store\<close> says whether \<open>localStorage.setItem\<close> returns.
  \<^verbatim>\<open>
  const updated = prev.includes(messageId)
    ? prev.filter((id) => id !== messageId)
    : [...prev, messageId];
  \<close>
\<close>

definition setItem :: "bool \<Rightarrow> jsstring \<Rightarrow> jsstring \<Rightarrow> view_state \<Rightarrow> view_state" where
  "setItem can_store key v st =
     (if can_store then st\<lparr>localStorage := (localStorage st)(key \<mapsto> v)\<rparr> else st)"

definition toggle_pin :: "jsstring \<Rightarrow> jsstring list \<Rightarrow> jsstring list" where
  "toggle_pin messageId prev =
     (if messageId \<in> set prev then filter (\<lambda>id. id \<noteq> messageId) prev
      else prev @ [messageId])"

definition handleTogglePin ::
  "(jsstring list \<Rightarrow> jsstring) \<Rightarrow> bool \<Rightarrow> jsstring \<Rightarrow> view_state \<Rightarrow> view_state" where
  "handleTogglePin enc can_store messageId st =
     (let updated = toggle_pin messageId (pinnedMessages st)
      in setItem can_store (js ''epc-pinned-messages'') (enc updated)
           (st\<lparr>pinnedMessages := updated\<rparr>))"

text \<open>
  \<^verbatim>\<open>
  const updated = { ...prev, [messageId]: tag };       // handleSetTag
  const updated = { ...prev }; delete updated[messageId];   // handleRemoveTag
  \<close>
\<close>

datatype tag = Decision | Action | Idea

fun tag_text :: "tag \<Rightarrow> jsstring" where
  "tag_text Decision = js ''decision''"
| "tag_text Action = js ''action''"
| "tag_text Idea = js ''idea''"

definition handleSetTag ::
  "((jsstring \<rightharpoonup> jsstring) \<Rightarrow> jsstring) \<Rightarrow> bool \<Rightarrow> jsstring \<Rightarrow> tag \<Rightarrow> view_state \<Rightarrow> view_state" where
  "handleSetTag enc can_store messageId t st =
     (let updated = (messageTagsMap st)(messageId \<mapsto> tag_text t)
      in setItem can_store (js ''epc-message-tags'') (enc updated)
           (st\<lparr>messageTagsMap := updated\<rparr>))"

definition handleRemoveTag ::
  "((jsstring \<rightharpoonup> jsstring) \<Rightarrow> jsstring) \<Rightarrow> bool \<Rightarrow> jsstring \<Rightarrow> view_state \<Rightarrow> view_state" where
  "handleRemoveTag enc can_store messageId st =
     (let updated = (messageTagsMap st)(messageId := None)
      in setItem can_store (js ''epc-message-tags'') (enc updated)
           (st\<lparr>messageTagsMap := updated\<rparr>))"

datatype tag_op = SetTag jsstring tag | RemoveTag jsstring

text \<open>One user action on the tags, with the outcome of its \<open>setItem\<close>.\<close>

fun tag_step ::
  "((jsstring \<rightharpoonup> jsstring) \<Rightarrow> jsstring) \<Rightarrow> view_state \<Rightarrow> bool \<times> tag_op \<Rightarrow> view_state" where
  "tag_step enc st (can_store, SetTag m t) = handleSetTag enc can_store m t st"
| "tag_step enc st (can_store, RemoveTag m) = handleRemoveTag enc can_store m st"

definition tags_of :: "view_state \<Rightarrow> jsstring \<Rightarrow> jsstring set" where
  "tags_of st m = {t. messageTagsMap st m = Some t}"

section \<open>Rehydration from local storage\<close>

text \<open>
  \<^verbatim>\<open>
  useState<string[]>(() => {
    try {
      const saved = localStorage.getItem('epc-pinned-messages');
      return saved ? JSON.parse(saved) : [];
    } catch {
      return [];
    }
  });
  \<close>
  and the same for \<open>'epc-message-tags'\<close> with \<open>{}\<close>. An exception is a value \<open>Inl e\<close>;
  \<open>got\<close> is what \<open>getItem\<close> does (it throws, or returns \<open>null\<close> or a string), and
  \<open>parse\<close> is \<open>JSON.parse\<close> (it throws on malformed input). The empty string is falsy.
\<close>

datatype js_error = SyntaxError | OtherError

datatype 'n json = JNull | JBool bool | JNum 'n | JStr jsstring | JArr "'n json list"
  | JObj "(jsstring \<times> 'n json) list"

definition try_catch :: "('e + 'a) \<Rightarrow> ('e \<Rightarrow> 'e + 'a) \<Rightarrow> 'e + 'a" where
  "try_catch body handler = (case body of Inl e \<Rightarrow> handler e | Inr v \<Rightarrow> Inr v)"

definition rehydrate ::
  "'n json \<Rightarrow> (js_error + jsstring option) \<Rightarrow> (jsstring \<Rightarrow> js_error + 'n json) \<Rightarrow> js_error + 'n json" where
  "rehydrate dflt got parse =
     try_catch
       (case got of
          Inl e \<Rightarrow> Inl e
        | Inr saved \<Rightarrow>
            (case saved of
               None \<Rightarrow> Inr dflt
             | Some s \<Rightarrow> if s \<noteq> [] then parse s else Inr dflt))
       (\<lambda>e. Inr dflt)"

definition init_pinnedMessages ::
  "(js_error + jsstring option) \<Rightarrow> (jsstring \<Rightarrow> js_error + 'n json) \<Rightarrow> js_error + 'n json" where
  "init_pinnedMessages got parse = rehydrate (JArr []) got parse"

definition init_messageTagsMap ::
  "(js_error + jsstring option) \<Rightarrow> (jsstring \<Rightarrow> js_error + 'n json) \<Rightarrow> js_error + 'n json" where
  "init_messageTagsMap got parse = rehydrate (JObj []) got parse"

text \<open>Two messages for the examples.\<close>

definition story :: jsstring where
  "story = js ''# Notes'' @ [nl] @ js ''One  is `first`. Two! [Three](http://x.y)?   Four.''"

definition six :: jsstring where
  "six = js ''A. Bb. Ccc. Dddd. Eeeee. Ffffff.''"

section \<open>Static facts read off a pattern\<close>

text \<open>
  \<open>cnt c r\<close> is a number of occurrences of the code unit \<open>c\<close> that every match of \<open>r\<close>
  contains, and \<open>first c r\<close> says that every match of \<open>r\<close> starts with \<open>c\<close>; both look at
  the literals outside quantifiers only, and only at code units that are not ASCII letters,
  which the \<open>i\<close> flag leaves alone.
\<close>

definition caseless :: "jschar \<Rightarrow> bool" where
  "caseless c = (\<not> (0x41 \<le> c \<and> c \<le> 0x5A) \<and> \<not> (0x61 \<le> c \<and> c \<le> 0x7A))"

fun cnt :: "jschar \<Rightarrow> re \<Rightarrow> nat" where
  "cnt c (Lit a) = (if a = c \<and> caseless c then 1 else 0)"
| "cnt c (Seq r1 r2) = cnt c r1 + cnt c r2"
| "cnt c (Grp i r) = cnt c r"
| "cnt c r = 0"

fun first :: "jschar \<Rightarrow> re \<Rightarrow> bool" where
  "first c (Lit a) = (a = c \<and> caseless c)"
| "first c (Seq r1 r2) = first c r1"
| "first c (Grp i r) = first c r"
| "first c r = False"

text \<open>
  Input without markdown, for the HTML export: none of the characters that start one of the
  constructs the converter rewrites, and no blank line (two line feeds in a row).
\<close>

fun blank_line :: "jsstring \<Rightarrow> bool" where
  "blank_line (a # b # s) = ((a = nl \<and> b = nl) \<or> blank_line (b # s))"
| "blank_line s = False"

definition markdown_chars :: jsstring where
  "markdown_chars = js [CHR ''#'', CHR ''*'', CHR ''_'', CHR ''['', CHR 0x60, CHR ''-'', CHR ''>'']"

definition markdown_free :: "jsstring \<Rightarrow> bool" where
  "markdown_free s = (list_all (\<lambda>c. c \<notin> set s) markdown_chars \<and> \<not> blank_line s)"




text \<open>
  What \<open>replace(/\s+/g, " ")\<close> computes, written as a scan: each run of white space
  becomes one space (\<open>in_run\<close> says that the scan is inside a run). A text is
  \<open>single_spaced\<close> when its only white space is single spaces, and \<open>spaced\<close> when moreover
  each of them is followed by something else.
\<close>

fun collapse_from :: "bool \<Rightarrow> jsstring \<Rightarrow> jsstring" where
  "collapse_from in_run [] = []"
| "collapse_from in_run (c # s) =
     (if is_ws c then (if in_run then collapse_from True s else 0x20 # collapse_from True s)
      else c # collapse_from False s)"

fun single_spaced :: "jsstring \<Rightarrow> bool" where
  "single_spaced [] = True"
| "single_spaced [c] = (if is_ws c then c = 0x20 else True)"
| "single_spaced (c # d # s) =
     (if is_ws c then c = 0x20 \<and> \<not> is_ws d \<and> single_spaced (d # s) else single_spaced (d # s))"

fun spaced :: "jsstring \<Rightarrow> bool" where
  "spaced [] = True"
| "spaced (c # s) =
     (if is_ws c then c = 0x20 \<and> s \<noteq> [] \<and> \<not> is_ws (hd s) \<and> spaced s else spaced s)"

definition sentence_end :: "jschar option \<Rightarrow> bool" where
  "sentence_end p = (case p of None \<Rightarrow> False
     | Some q \<Rightarrow> q = chr CHR ''.'' \<or> q = chr CHR ''!'' \<or> q = chr CHR ''?'')"

text \<open>A state of the view with two pinned messages, for the examples.\<close>

definition demo_state :: view_state where
  "demo_state = \<lparr>pinnedMessages = [js ''m1'', js ''m2''], messageTagsMap = Map.empty,
     highlightsByMessage = Map.empty, summaryByMessage = Map.empty,
     expandedInsights = Map.empty, expandedSummary = Map.empty, localStorage = Map.empty\<rparr>"

section \<open>Facts about matching\<close>

lemma js_simps:
  "js [] = []" "js (c # cs) = chr c # js cs"
  by (simp_all add: js_def)

lemma canon_upper: "0x61 \<le> c \<Longrightarrow> c \<le> 0x7A \<Longrightarrow> 0x41 \<le> c - 0x20 \<and> c - 0x20 \<le> (0x5A::jschar)"
  apply (simp add: word_le_nat_alt unat_sub_if_size word_size) 
  by arith

lemma lit_match_caseless: "caseless a \<Longrightarrow> lit_match f a c \<Longrightarrow> c = a"
  using canon_upper[of c] canon_upper[of a]
  by (auto simp: lit_match_def caseless_def canon_def split: if_splits)

lemma ms_Lit_iff:
  "st' \<in> set (ms f (Lit a) st) \<longleftrightarrow>
     (\<exists>x s. rest st = x # s \<and> lit_match f a x \<and> st' = st\<lparr>behind := Some x, rest := s\<rparr>)"
  by (cases "rest st") auto

lemma ms_Cls_iff:
  "st' \<in> set (ms f (Cls neg rs) st) \<longleftrightarrow>
     (\<exists>x s. rest st = x # s \<and> cls_match f neg rs x \<and> st' = st\<lparr>behind := Some x, rest := s\<rparr>)"
  by (cases "rest st") auto

lemma ms_Dot_iff:
  "st' \<in> set (ms f Dot st) \<longleftrightarrow>
     (\<exists>x s. rest st = x # s \<and> (dotall f \<or> \<not> is_lt x) \<and> st' = st\<lparr>behind := Some x, rest := s\<rparr>)"
  by (cases "rest st") auto

declare ms.simps(11,12) [simp del]

lemma ms_Star_iff:
  "st' \<in> set (ms f (Star r) st) \<longleftrightarrow>
     st' = st \<or> (\<exists>st1 \<in> set (ms f r st). length (rest st1) < length (rest st) \<and> st' \<in> set (ms f (Star r) st1))"
  by (subst ms.simps(11)) (auto split: if_splits)

lemma ms_LStar_iff:
  "st' \<in> set (ms f (LStar r) st) \<longleftrightarrow>
     st' = st \<or> (\<exists>st1 \<in> set (ms f r st). length (rest st1) < length (rest st) \<and> st' \<in> set (ms f (LStar r) st1))"
  by (subst ms.simps(12)) (auto split: if_splits)

lemma ms_Bol_D: "st' \<in> set (ms f Bol st) \<Longrightarrow> st' = st"
  by (cases "behind st") (auto split: if_splits)

lemma ms_Eol_D: "st' \<in> set (ms f Eol st) \<Longrightarrow> st' = st"
  by (cases "rest st") (auto split: if_splits)

lemma ms_Behind_D: "st' \<in> set (ms f (Behind rs) st) \<Longrightarrow> st' = st"
  by (cases "behind st") (auto split: if_splits)

lemma ms_count:
  "st' \<in> set (ms f r st) \<Longrightarrow> \<exists>w. rest st = w @ rest st' \<and> cnt c r \<le> count_list w c"
proof (induction f r st arbitrary: st' rule: ms.induct)
  case (1 f st)
  then show ?case by simp
next
  case (2 f a st)
  then obtain x s where "rest st = x # s" "lit_match f a x" "st' = st\<lparr>behind := Some x, rest := s\<rparr>"
    unfolding ms_Lit_iff by blast
  then show ?case
    using lit_match_caseless[of a f x] by (intro exI[of _ "[x]"]) auto
next
  case (3 f neg rs st)
  then obtain x s where "rest st = x # s" "st' = st\<lparr>behind := Some x, rest := s\<rparr>"
    unfolding ms_Cls_iff by blast
  then show ?case by (intro exI[of _ "[x]"]) simp
next
  case (4 f st)
  then obtain x s where "rest st = x # s" "st' = st\<lparr>behind := Some x, rest := s\<rparr>"
    unfolding ms_Dot_iff by blast
  then show ?case by (intro exI[of _ "[x]"]) simp
next
  case (5 f st)
  then have "st' = st" by (rule ms_Bol_D)
  then show ?case by simp
next
  case (6 f st)
  then have "st' = st" by (rule ms_Eol_D)
  then show ?case by simp
next
  case (7 f rs st)
  then have "st' = st" by (rule ms_Behind_D)
  then show ?case by simp
next
  case (8 f r1 r2 st)
  from "8.prems" obtain st1 where s1: "st1 \<in> set (ms f r1 st)" and s2: "st' \<in> set (ms f r2 st1)"
    by auto
  from "8.IH"(1)[OF s1] obtain w1 where w1: "rest st = w1 @ rest st1" "cnt c r1 \<le> count_list w1 c" by blast
  from "8.IH"(2)[OF s1 s2] obtain w2 where w2: "rest st1 = w2 @ rest st'" "cnt c r2 \<le> count_list w2 c" by blast
  show ?case using w1 w2 by (intro exI[of _ "w1 @ w2"]) simp
next
  case (9 f i r st)
  from "9.prems" obtain st1 where s1: "st1 \<in> set (ms f r st)" and e: "rest st' = rest st1"
    by auto
  from "9.IH"[OF s1] e show ?case by simp
next
  case (10 f r st)
  from "10.prems" consider "st' = st" | "st' \<in> set (ms f r st)" by auto
  then show ?case
  proof cases
    case 1
    then show ?thesis by simp
  next
    case 2
    from "10.IH"[OF 2] show ?thesis by auto
  qed
next
  case (11 f r st)
  from "11.prems" consider "st' = st"
    | st1 where "st1 \<in> set (ms f r st)" "length (rest st1) < length (rest st)" "st' \<in> set (ms f (Star r) st1)"
    using ms_Star_iff[of st' f r st] by blast
  then show ?case
  proof cases
    case 1
    then show ?thesis by simp
  next
    case 2
    from "11.IH"(1)[OF 2(1)] obtain w1 where w1: "rest st = w1 @ rest st1" by blast
    from "11.IH"(2)[OF 2(1) 2(2) 2(3)] obtain w2 where w2: "rest st1 = w2 @ rest st'" by blast
    show ?thesis using w1 w2 by (intro exI[of _ "w1 @ w2"]) simp
  qed
next
  case (12 f r st)
  from "12.prems" consider "st' = st"
    | st1 where "st1 \<in> set (ms f r st)" "length (rest st1) < length (rest st)" "st' \<in> set (ms f (LStar r) st1)"
    using ms_LStar_iff[of st' f r st] by blast
  then show ?case
  proof cases
    case 1
    then show ?thesis by simp
  next
    case 2
    from "12.IH"(1)[OF 2(1)] obtain w1 where w1: "rest st = w1 @ rest st1" by blast
    from "12.IH"(2)[OF 2(1) 2(2) 2(3)] obtain w2 where w2: "rest st1 = w2 @ rest st'" by blast
    show ?thesis using w1 w2 by (intro exI[of _ "w1 @ w2"]) simp
  qed
qed

lemma ms_first:
  "first c r \<Longrightarrow> st' \<in> set (ms f r st) \<Longrightarrow> \<exists>t. rest st = c # t"
proof (induction c r arbitrary: st st' rule: first.induct)
  case (1 c a)
  from "1.prems"(2) obtain x s where x: "rest st = x # s" "lit_match f a x"
    unfolding ms_Lit_iff by blast
  from "1.prems"(1) have ac: "a = c" "caseless a" by simp_all
  from lit_match_caseless[OF ac(2) x(2)] x(1) ac(1) show ?case by simp
next
  case (2 c r1 r2)
  then show ?case by auto
next
  case (3 c i r)
  then show ?case by auto
qed simp_all

lemma re_exec_None_iff: "re_exec f r p s = None \<longleftrightarrow> ms f r \<lparr>behind = p, rest = s, caps = []\<rparr> = []"
  by (simp add: re_exec_def split: list.splits)

lemma re_exec_None_count:
  assumes "count_list s c < cnt c r"
  shows "re_exec f r p s = None"
proof (rule ccontr)
  assume "re_exec f r p s \<noteq> None"
  then have "ms f r \<lparr>behind = p, rest = s, caps = []\<rparr> \<noteq> []"
    by (simp add: re_exec_None_iff)
  then obtain st' where "st' \<in> set (ms f r \<lparr>behind = p, rest = s, caps = []\<rparr>)"
    using hd_in_set by blast
  from ms_count[OF this, of c] obtain w where "s = w @ rest st'" "cnt c r \<le> count_list w c"
    by auto
  with assms show False by simp
qed

lemma re_exec_None_first:
  assumes "first c r" "\<And>t. s \<noteq> c # t"
  shows "re_exec f r p s = None"
proof (rule ccontr)
  assume "re_exec f r p s \<noteq> None"
  then have "ms f r \<lparr>behind = p, rest = s, caps = []\<rparr> \<noteq> []"
    by (simp add: re_exec_None_iff)
  then obtain st' where "st' \<in> set (ms f r \<lparr>behind = p, rest = s, caps = []\<rparr>)"
    using hd_in_set by blast
  from ms_first[OF assms(1) this] assms(2) show False by simp
qed

lemma gsub_from_id:
  "(\<And>t p. suffix t s \<Longrightarrow> re_exec f r p t = None) \<Longrightarrow> gsub_from f r tm p0 0 s = s"
proof (induction s arbitrary: p0)
  case Nil
  then show ?case by simp
next
  case (Cons a s)
  have "re_exec f r p0 (a # s) = None" by (rule Cons.prems) simp
  moreover have "gsub_from f r tm (Some a) 0 s = s"
    by (rule Cons.IH) (simp add: Cons.prems suffix_Cons)
  ultimately show ?case by simp
qed

lemma sub1_from_id:
  "(\<And>t p. suffix t s \<Longrightarrow> re_exec f r p t = None) \<Longrightarrow> sub1_from f r tm p0 s = s"
proof (induction s arbitrary: p0)
  case Nil
  then show ?case by simp
next
  case (Cons a s)
  have "re_exec f r p0 (a # s) = None" by (rule Cons.prems) simp
  moreover have "sub1_from f r tm (Some a) s = s"
    by (rule Cons.IH) (simp add: Cons.prems suffix_Cons)
  ultimately show ?case by simp
qed

lemma count_list_suffix: "suffix t s \<Longrightarrow> count_list t c \<le> count_list s c"
  by (auto simp: suffix_def)

lemma gsub_absent:
  assumes "c \<notin> set s" "0 < cnt c r"
  shows "gsub f r tm s = s"
  unfolding gsub_def
proof (rule gsub_from_id)
  fix t p assume "suffix t s"
  then have "count_list t c \<le> count_list s c" by (rule count_list_suffix)
  with assms have "count_list t c < cnt c r" by (simp add: count_list_0_iff)
  then show "re_exec f r p t = None" by (rule re_exec_None_count)
qed

lemma sub1_absent:
  assumes "c \<notin> set s" "0 < cnt c r"
  shows "sub1 f r tm s = s"
  unfolding sub1_def
proof (rule sub1_from_id)
  fix t p assume "suffix t s"
  then have "count_list t c \<le> count_list s c" by (rule count_list_suffix)
  with assms have "count_list t c < cnt c r" by (simp add: count_list_0_iff)
  then show "re_exec f r p t = None" by (rule re_exec_None_count)
qed

lemma blank_line_append: "blank_line (u @ nl # nl # v)"
proof (induction u)
  case Nil
  then show ?case by simp
next
  case (Cons x u)
  then show ?case by (cases u) simp_all
qed

lemma chr_vals:
  "chr CHR ''#'' = 0x23" "chr CHR ''*'' = 0x2A" "chr CHR ''_'' = 0x5F" "chr CHR ''['' = 0x5B"
  "chr (CHR 0x60) = 0x60" "chr CHR ''-'' = 0x2D" "chr CHR ''>'' = 0x3E" "chr CHR ''<'' = 0x3C"
  "chr CHR ''/'' = 0x2F" "chr CHR ''p'' = 0x70" "chr CHR '' '' = 0x20"
  by (simp_all add: chr_def)

lemma markdown_free_D:
  assumes "markdown_free s"
  shows "0x23 \<notin> set s" "0x2A \<notin> set s" "0x5F \<notin> set s" "0x5B \<notin> set s" "0x60 \<notin> set s"
    "0x2D \<notin> set s" "0x3E \<notin> set s" "\<not> blank_line s"
  using assms by (simp_all add: markdown_free_def markdown_chars_def js_simps chr_vals)

lemma cnt_patterns:
  "0 < cnt 0x23 (re_line (CHR ''#'' # d))"
  "0 < cnt 0x2A (re_line (CHR ''*'' # d))"
  "0 < cnt 0x2D (re_line (CHR ''-'' # d))"
  "0 < cnt 0x3E (re_line (CHR ''>'' # d))"
  "0 < cnt 0x2A (re_wrapped (CHR ''*'' # d))"
  "0 < cnt 0x5F (re_wrapped (CHR ''_'' # d))"
  "0 < cnt 0x5B re_link"
  "0 < cnt 0x60 re_code_block"
  "0 < cnt 0x60 re_inline_code"
  "0 < cnt 0x3E re_list_items"
  "0 < cnt 0x2D re_rule"
  by (cases d; simp add: re_line_def re_wrapped_def re_link_def re_code_block_def re_inline_code_def
      re_list_items_def re_rule_def str_def chr_vals caseless_def Plus_def)+


lemma lit_match_caseless_iff: "caseless a \<Longrightarrow> lit_match f a c \<longleftrightarrow> c = a"
  using lit_match_caseless[of a f c] by (auto simp: lit_match_def)

lemma lit_match_sym: "lit_match f a c \<longleftrightarrow> lit_match f c a"
  by (auto simp: lit_match_def)

lemma lit_match_caseless_iff2: "caseless c \<Longrightarrow> lit_match f a c \<longleftrightarrow> a = c"
  using lit_match_caseless_iff[of c f a] lit_match_sym[of f a c] by simp

lemma ms_Seq_iff:
  "st' \<in> set (ms f (Seq r1 r2) st) \<longleftrightarrow> (\<exists>st1 \<in> set (ms f r1 st). st' \<in> set (ms f r2 st1))"
  by simp

lemma two_lits:
  assumes "re_exec f (Seq (Lit a) (Lit b)) p t \<noteq> None" "caseless a" "caseless b"
  shows "\<exists>t'. t = a # b # t'"
proof -
  from assms(1) have "ms f (Seq (Lit a) (Lit b)) \<lparr>behind = p, rest = t, caps = []\<rparr> \<noteq> []"
    by (simp add: re_exec_None_iff)
  then obtain st' where "st' \<in> set (ms f (Seq (Lit a) (Lit b)) \<lparr>behind = p, rest = t, caps = []\<rparr>)"
    using hd_in_set by blast
  then obtain st1 where 1: "st1 \<in> set (ms f (Lit a) \<lparr>behind = p, rest = t, caps = []\<rparr>)"
    and 2: "st' \<in> set (ms f (Lit b) st1)"
    unfolding ms_Seq_iff by blast
  from 1 obtain x s where x: "t = x # s" "lit_match f a x" "rest st1 = s"
    unfolding ms_Lit_iff by auto
  from 2 obtain y s' where y: "rest st1 = y # s'" "lit_match f b y"
    unfolding ms_Lit_iff by auto
  from x y assms(2,3) show ?thesis by (auto simp add: lit_match_caseless_iff)
qed

lemma gsub_no_blank_line:
  assumes "\<not> blank_line s"
  shows "gsub f (Seq (Lit nl) (Lit nl)) tm s = s"
  unfolding gsub_def
proof (rule gsub_from_id)
  fix t p assume suf: "suffix t s"
  show "re_exec f (Seq (Lit nl) (Lit nl)) p t = None"
  proof (rule ccontr)
    assume "re_exec f (Seq (Lit nl) (Lit nl)) p t \<noteq> None"
    then obtain t' where "t = nl # nl # t'"
      using two_lits[of f nl nl p t] by (auto simp: caseless_def nl_def)
    with suf obtain u where "s = u @ nl # nl # t'" by (auto simp: suffix_def)
    with assms blank_line_append show False by simp
  qed
qed

lemma gsub_in_paragraph:
  assumes gt: "0x3E \<notin> set s"
    and two: "2 \<le> cnt 0x3E r"
    and lt: "first 0x3C r"
    and whole: "\<And>p. re_exec f r p (js ''<p>'' @ s @ js ''</p>'') = None"
  shows "gsub f r tm (js ''<p>'' @ s @ js ''</p>'') = js ''<p>'' @ s @ js ''</p>''"
  unfolding gsub_def
proof (rule gsub_from_id)
  fix t p assume "suffix t (js ''<p>'' @ s @ js ''</p>'')"
  then consider "suffix t (s @ js ''</p>'')"
    | t' where "suffix t' (js ''<p>'')" "t = t' @ s @ js ''</p>''"
    by (auto simp: suffix_append)
  then show "re_exec f r p t = None"
  proof cases
    case 1
    then have "count_list t 0x3E \<le> count_list (s @ js ''</p>'') 0x3E"
      by (rule count_list_suffix)
    also have "\<dots> = 1" using gt by (simp add: js_simps chr_vals count_list_0_iff)
    finally have "count_list t 0x3E < cnt 0x3E r" using two by simp
    then show ?thesis by (rule re_exec_None_count)
  next
    case 2
    from 2(1) consider "t' = js ''<p>''" | "t' = js ''p>''" | "t' = js ''>''" | "t' = []"
      by (auto simp: js_simps suffix_Cons)
    then show ?thesis
    proof cases
      case 1
      with 2 whole show ?thesis by simp
    next
      case 2
      with \<open>t = t' @ s @ js ''</p>''\<close> have "\<And>u. t \<noteq> 0x3C # u" by (simp add: js_simps chr_vals)
      with lt show ?thesis by (rule re_exec_None_first)
    next
      case 3
      with \<open>t = t' @ s @ js ''</p>''\<close> have "\<And>u. t \<noteq> 0x3C # u" by (simp add: js_simps chr_vals)
      with lt show ?thesis by (rule re_exec_None_first)
    next
      case 4
      with 2 have "count_list t 0x3E = 1" using gt by (simp add: js_simps chr_vals count_list_0_iff)
      with two have "count_list t 0x3E < cnt 0x3E r" by simp
      then show ?thesis by (rule re_exec_None_count)
    qed
  qed
qed

lemma empty_paragraph_whole:
  assumes "s \<noteq> []" "0x3E \<notin> set s"
  shows "re_exec flags_gim (str ''<p></p>'') p (js ''<p>'' @ s @ js ''</p>'') = None"
proof -
  obtain a s1 where s: "s = a # s1" using assms(1) by (cases s) auto
  show ?thesis
  proof (cases s1)
    case Nil
    with s show ?thesis
      by (simp add: re_exec_None_iff str_def js_simps chr_vals lit_match_caseless_iff caseless_def)
  next
    case (Cons b s2)
    show ?thesis
    proof (cases s2)
      case Nil
      with s Cons show ?thesis
        by (simp add: re_exec_None_iff str_def js_simps chr_vals lit_match_caseless_iff lit_match_caseless_iff2 caseless_def)
    next
      case (Cons c s3)
      show ?thesis
      proof (cases s3)
        case Nil
        with s \<open>s1 = b # s2\<close> Cons show ?thesis
          by (simp add: re_exec_None_iff str_def js_simps chr_vals lit_match_caseless_iff lit_match_caseless_iff2 caseless_def)
      next
        case (Cons d s4)
        with s \<open>s1 = b # s2\<close> \<open>s2 = c # s3\<close> assms(2) show ?thesis
          by (auto simp add: re_exec_None_iff str_def js_simps chr_vals lit_match_caseless_iff lit_match_caseless_iff2 caseless_def)
      qed
    qed
  qed
qed

lemma list_upto4:
  obtains "s = []" | a where "s = [a]" | a b where "s = [a, b]" | a b c where "s = [a, b, c]"
  | a b c d s' where "s = a # b # c # d # s'"
proof (cases s)
  case Nil
  then show ?thesis using that by simp
next
  case (Cons a s1)
  then show ?thesis
  proof (cases s1)
    case Nil
    with Cons show ?thesis using that by simp
  next
    case (Cons b s2)
    note c2 = this
    show ?thesis
    proof (cases s2)
      case Nil
      with c2 \<open>s = a # s1\<close> show ?thesis using that by simp
    next
      case (Cons c s3)
      show ?thesis
      proof (cases s3)
        case Nil
        with c2 Cons \<open>s = a # s1\<close> show ?thesis using that by simp
      next
        case (Cons d s4)
        with c2 \<open>s2 = c # s3\<close> \<open>s = a # s1\<close> show ?thesis using that by simp
      qed
    qed
  qed
qed

lemma cls_digit_gt: "\<not> cls_match flags_gim False [(0x31, 0x36)] 0x3C"
  "\<not> cls_match flags_gim False [(0x31, 0x36)] 0x2F"
  by (simp_all add: cls_match_def in_ranges_def canon_def uncanon_def flags_gim_def)

lemmas eval_whole = re_exec_None_iff str_def js_simps chr_def lit_match_caseless_iff
  lit_match_caseless_iff2 caseless_def re_p_then_def re_then_p_def digit_1_6_def cls_digit_gt

lemma then_p_whole:
  "re_exec flags_gim (re_then_p (seqs [str ''</h'', digit_1_6, str ''>''])) p (js ''<p>'' @ s @ js ''</p>'') = None"
  "re_exec flags_gim (re_then_p (str ''</ul>'')) p (js ''<p>'' @ s @ js ''</p>'') = None"
  "re_exec flags_gim (re_then_p (str ''</pre>'')) p (js ''<p>'' @ s @ js ''</p>'') = None"
  by (simp_all add: eval_whole)

lemma p_then_heading_whole:
  assumes "0x3E \<notin> set s"
  shows "re_exec flags_gim (re_p_then (seqs [str ''<h'', digit_1_6, str ''>''])) p (js ''<p>'' @ s @ js ''</p>'') = None"
proof (cases s rule: list_upto4)
  case 1
  then show ?thesis by (simp add: eval_whole)
next
  case (2 a)
  then show ?thesis by (simp add: eval_whole)
next
  case (3 a b)
  then show ?thesis by (simp add: eval_whole)
next
  case (4 a b c)
  then show ?thesis by (simp add: eval_whole)
next
  case (5 a b c d s')
  with assms show ?thesis by (simp add: eval_whole)
qed

lemma p_then_ul_whole:
  assumes "0x3E \<notin> set s"
  shows "re_exec flags_gim (re_p_then (str ''<ul>'')) p (js ''<p>'' @ s @ js ''</p>'') = None"
proof (cases s rule: list_upto4)
  case 1
  then show ?thesis by (simp add: eval_whole)
next
  case (2 a)
  then show ?thesis by (simp add: eval_whole)
next
  case (3 a b)
  then show ?thesis by (simp add: eval_whole)
next
  case (4 a b c)
  then show ?thesis by (simp add: eval_whole)
next
  case (5 a b c d s')
  with assms show ?thesis by (simp add: eval_whole)
qed

lemma p_then_pre_whole:
  assumes "0x3E \<notin> set s"
  shows "re_exec flags_gim (re_p_then (str ''<pre>'')) p (js ''<p>'' @ s @ js ''</p>'') = None"
proof (cases s rule: list_upto4)
  case 1
  then show ?thesis by (simp add: eval_whole)
next
  case (2 a)
  then show ?thesis by (simp add: eval_whole)
next
  case (3 a b)
  then show ?thesis by (simp add: eval_whole)
next
  case (4 a b c)
  then show ?thesis by (simp add: eval_whole)
next
  case (5 a b c d s')
  with assms show ?thesis by (cases s') (simp_all add: eval_whole)
qed

lemma cnt_cleanup:
  "2 \<le> cnt 0x3E (str ''<p></p>'')"
  "2 \<le> cnt 0x3E (re_p_then (seqs [str ''<h'', digit_1_6, str ''>'']))"
  "2 \<le> cnt 0x3E (re_then_p (seqs [str ''</h'', digit_1_6, str ''>'']))"
  "2 \<le> cnt 0x3E (re_p_then (str ''<ul>''))"
  "2 \<le> cnt 0x3E (re_then_p (str ''</ul>''))"
  "2 \<le> cnt 0x3E (re_p_then (str ''<pre>''))"
  "2 \<le> cnt 0x3E (re_then_p (str ''</pre>''))"
  by (simp_all add: eval_whole)

lemma first_cleanup:
  "first 0x3C (str ''<p></p>'')"
  "first 0x3C (re_p_then (seqs [str ''<h'', digit_1_6, str ''>'']))"
  "first 0x3C (re_then_p (seqs [str ''</h'', digit_1_6, str ''>'']))"
  "first 0x3C (re_p_then (str ''<ul>''))"
  "first 0x3C (re_then_p (str ''</ul>''))"
  "first 0x3C (re_p_then (str ''<pre>''))"
  "first 0x3C (re_then_p (str ''</pre>''))"
  by (simp_all add: eval_whole)


























lemma cls_ws: "cls_match flags_g False white_space c = is_ws c"
  by (simp add: cls_match_def flags_g_def is_ws_def)

lemma ms_star_ws:
  "\<exists>p' tl. ms flags_g (Star (Cls False white_space)) \<lparr>behind = p, rest = s, caps = cs\<rparr>
      = \<lparr>behind = p', rest = dropWhile is_ws s, caps = cs\<rparr> # tl"
proof (induction s arbitrary: p)
  case Nil
  show ?case by (subst ms.simps(11)) simp
next
  case (Cons x s)
  show ?case
  proof (cases "is_ws x")
    case True
    from Cons [of "Some x"] obtain p' tl where
      "ms flags_g (Star (Cls False white_space)) \<lparr>behind = Some x, rest = s, caps = cs\<rparr>
        = \<lparr>behind = p', rest = dropWhile is_ws s, caps = cs\<rparr> # tl" by blast
    with True show ?thesis
      by (subst ms.simps(11)) (simp add: cls_ws)
  next
    case False
    then show ?thesis by (subst ms.simps(11)) (simp add: cls_ws)
  qed
qed

lemma ms_plus_ws:
  "ms flags_g re_spaces \<lparr>behind = p, rest = s, caps = cs\<rparr> = [] \<longleftrightarrow> (s = [] \<or> \<not> is_ws (hd s))"
  "s \<noteq> [] \<Longrightarrow> is_ws (hd s) \<Longrightarrow>
     \<exists>p' tl. ms flags_g re_spaces \<lparr>behind = p, rest = s, caps = cs\<rparr>
       = \<lparr>behind = p', rest = dropWhile is_ws s, caps = cs\<rparr> # tl"
proof -
  show "ms flags_g re_spaces \<lparr>behind = p, rest = s, caps = cs\<rparr> = [] \<longleftrightarrow> (s = [] \<or> \<not> is_ws (hd s))"
  proof (cases s)
    case Nil
    then show ?thesis by (simp add: re_spaces_def Plus_def)
  next
    case (Cons x t)
    from ms_star_ws [of "Some x" t cs] obtain p' tl where
      "ms flags_g (Star (Cls False white_space)) \<lparr>behind = Some x, rest = t, caps = cs\<rparr>
        = \<lparr>behind = p', rest = dropWhile is_ws t, caps = cs\<rparr> # tl" by blast
    with Cons show ?thesis by (simp add: re_spaces_def Plus_def cls_ws)
  qed
next
  assume "s \<noteq> []" "is_ws (hd s)"
  then obtain x t where s: "s = x # t" "is_ws x" by (cases s) auto
  from ms_star_ws [of "Some x" t cs] obtain p' tl where
    "ms flags_g (Star (Cls False white_space)) \<lparr>behind = Some x, rest = t, caps = cs\<rparr>
      = \<lparr>behind = p', rest = dropWhile is_ws t, caps = cs\<rparr> # tl" by blast
  with s show "\<exists>p' tl. ms flags_g re_spaces \<lparr>behind = p, rest = s, caps = cs\<rparr>
       = \<lparr>behind = p', rest = dropWhile is_ws s, caps = cs\<rparr> # tl"
    by (simp add: re_spaces_def Plus_def cls_ws)
qed

lemma length_minus_dropWhile: "length s - length (dropWhile P s) = length (takeWhile P s)"
  by (induction s) (auto simp: Suc_diff_le length_dropWhile_le)

lemma re_exec_spaces:
  "re_exec flags_g re_spaces p s =
     (if s \<noteq> [] \<and> is_ws (hd s) then Some (length (takeWhile is_ws s), []) else None)"
proof (cases "s \<noteq> [] \<and> is_ws (hd s)")
  case True
  with ms_plus_ws(2) [of s p "[]"] obtain p' tl where
    "ms flags_g re_spaces \<lparr>behind = p, rest = s, caps = []\<rparr>
       = \<lparr>behind = p', rest = dropWhile is_ws s, caps = []\<rparr> # tl" by blast
  with True show ?thesis by (simp add: re_exec_def length_minus_dropWhile)
next
  case False
  with ms_plus_ws(1) [of p s "[]"] show ?thesis by (auto simp add: re_exec_None_iff)
qed

lemma re_exec_sentence_end:
  "re_exec flags_g re_sentence_end p s =
     (if sentence_end p \<and> s \<noteq> [] \<and> is_ws (hd s) then Some (length (takeWhile is_ws s), []) else None)"
proof (cases "sentence_end p")
  case True
  then obtain q where q: "p = Some q" "q = chr CHR ''.'' \<or> q = chr CHR ''!'' \<or> q = chr CHR ''?''"
    by (auto simp: sentence_end_def split: option.splits)
  then have "cls_match flags_g False (one CHR ''.'' @ one CHR ''!'' @ one CHR ''?'') q"
    by (auto simp: cls_match_def flags_g_def one_def in_ranges_def)
  with q have "ms flags_g re_sentence_end \<lparr>behind = p, rest = s, caps = []\<rparr>
      = ms flags_g re_spaces \<lparr>behind = p, rest = s, caps = []\<rparr>"
    by (simp add: re_sentence_end_def re_spaces_def)
  then have "re_exec flags_g re_sentence_end p s = re_exec flags_g re_spaces p s"
    by (simp add: re_exec_def)
  with True show ?thesis by (simp add: re_exec_spaces)
next
  case False
  have "\<not> cls_match flags_g False (one CHR ''.'' @ one CHR ''!'' @ one CHR ''?'') q"
    if "p = Some q" for q
    using False that by (auto simp: sentence_end_def cls_match_def flags_g_def one_def in_ranges_def)
  then have "ms flags_g re_sentence_end \<lparr>behind = p, rest = s, caps = []\<rparr> = []"
    by (cases p) (simp_all add: re_sentence_end_def)
  with False show ?thesis by (simp add: re_exec_None_iff)
qed

lemma gsub_from_spaces:
  "gsub_from flags_g re_spaces [T (js '' '')] p 0 s = collapse_from False s"
  "gsub_from flags_g re_spaces [T (js '' '')] p (length (takeWhile is_ws s)) s = collapse_from True s"
proof (induction s arbitrary: p)
  case Nil
  {
    case 1
    show ?case by (simp add: re_exec_spaces)
  next
    case 2
    show ?case by (simp add: re_exec_spaces)
  }
next
  case (Cons c s)
  {
    case 1
    show ?case
    proof (cases "is_ws c")
      case True
      with Cons(2) [of "Some c"] show ?thesis
        by (simp add: re_exec_spaces js_simps chr_def)
    next
      case False
      with Cons(1) [of "Some c"] show ?thesis
        by (simp add: re_exec_spaces)
    qed
  next
    case 2
    show ?case
    proof (cases "is_ws c")
      case True
      with Cons(2) [of "Some c"] show ?thesis by simp
    next
      case False
      with Cons(1) [of "Some c"] show ?thesis
        by (simp add: re_exec_spaces)
    qed
  }
qed

lemma gsub_spaces: "gsub flags_g re_spaces [T (js '' '')] s = collapse_from False s"
  by (simp add: gsub_def gsub_from_spaces(1))

lemma space_is_ws: "is_ws 0x20"
  by (simp add: is_ws_def white_space_def in_ranges_def)

lemma single_spaced_Cons:
  "single_spaced (c # s) \<longleftrightarrow>
     (if is_ws c then c = 0x20 \<and> (s = [] \<or> \<not> is_ws (hd s)) else True) \<and> single_spaced s"
  by (cases s) auto

lemma single_spaced_collapse:
  "single_spaced (collapse_from b s) \<and>
   (b \<longrightarrow> collapse_from b s = [] \<or> \<not> is_ws (hd (collapse_from b s)))"
proof (induction s arbitrary: b)
  case Nil
  then show ?case by simp
next
  case (Cons c s)
  from Cons [of True] Cons [of False] show ?case
    by (auto simp: single_spaced_Cons space_is_ws)
qed

lemma single_spaced_append: "single_spaced (a @ b) \<Longrightarrow> single_spaced a \<and> single_spaced b"
proof (induction a)
  case Nil
  then show ?case by simp
next
  case (Cons x a)
  then show ?case by (cases a) (auto simp: single_spaced_Cons split: if_splits)
qed

lemma trim_split: "\<exists>u v. s = u @ trim s @ v"
proof -
  let ?t = "dropWhile is_ws s"
  have "s = takeWhile is_ws s @ ?t" by simp
  moreover have "?t = rev (dropWhile is_ws (rev ?t)) @ rev (takeWhile is_ws (rev ?t))"
    by (metis rev_append rev_rev_ident takeWhile_dropWhile_id)
  ultimately have "s = takeWhile is_ws s @ trim s @ rev (takeWhile is_ws (rev ?t))"
    by (simp add: trim_def)
  then show ?thesis by blast
qed

lemma trim_ends:
  "trim s = [] \<or> (\<not> is_ws (hd (trim s)) \<and> \<not> is_ws (last (trim s)))"
proof (cases "trim s = []")
  case True
  then show ?thesis by simp
next
  case False
  let ?t = "dropWhile is_ws s"
  let ?d = "dropWhile is_ws (rev ?t)"
  from False have d: "?d \<noteq> []" by (simp add: trim_def)
  then have 1: "\<not> is_ws (hd ?d)" by (rule hd_dropWhile)
  have t: "?t \<noteq> []"
  proof
    assume "?t = []"
    with d show False by simp
  qed
  then have 2: "\<not> is_ws (hd ?t)" by (rule hd_dropWhile)
  have "rev ?t = takeWhile is_ws (rev ?t) @ ?d" by simp
  with d have "last ?d = last (rev ?t)" by (metis last_appendR)
  with t have 3: "last ?d = hd ?t" by (simp add: last_rev)
  from d have "hd (trim s) = last ?d" "last (trim s) = hd ?d"
    by (simp_all add: trim_def hd_rev last_rev)
  with 1 2 3 show ?thesis by simp
qed

lemma spaced_of_single:
  "single_spaced t \<Longrightarrow> t = [] \<or> \<not> is_ws (last t) \<Longrightarrow> spaced t"
proof (induction t rule: single_spaced.induct)
  case 1
  then show ?case by simp
next
  case (2 c)
  then show ?case by simp
next
  case (3 c d s)
  then show ?case by (auto split: if_splits)
qed

lemma trim_id: "t = [] \<or> (\<not> is_ws (hd t) \<and> \<not> is_ws (last t)) \<Longrightarrow> trim t = t"
proof (cases t)
  case Nil
  then show ?thesis by (simp add: trim_def)
next
  case (Cons x xs)
  assume "t = [] \<or> (\<not> is_ws (hd t) \<and> \<not> is_ws (last t))"
  with Cons have h: "\<not> is_ws x" and l: "\<not> is_ws (last t)" by auto
  from h Cons have "dropWhile is_ws t = t" by simp
  moreover have "dropWhile is_ws (rev t) = rev t"
  proof (cases t rule: rev_cases)
    case Nil
    then show ?thesis by simp
  next
    case (snoc ys y)
    with l show ?thesis by simp
  qed
  ultimately show ?thesis by (simp add: trim_def)
qed

lemma cleaned_of_tidy:
  "spaced (cleaned_of raw)"
  "cleaned_of raw = [] \<or> (\<not> is_ws (hd (cleaned_of raw)) \<and> \<not> is_ws (last (cleaned_of raw)))"
proof -
  let ?v = "gsub flags_g re_image [G 1] (gsub flags_g re_link [G 1] (gsub flags_gm re_marker []
     (gsub flags_g re_inline_code [G 1] (gsub flags_g re_fence [T (js '' '')] raw))))"
  have c: "cleaned_of raw = trim (collapse_from False ?v)"
    by (simp add: cleaned_of_def gsub_spaces)
  show e: "cleaned_of raw = [] \<or> (\<not> is_ws (hd (cleaned_of raw)) \<and> \<not> is_ws (last (cleaned_of raw)))"
    unfolding c by (rule trim_ends)
  from trim_split [of "collapse_from False ?v"] obtain u w where
    "collapse_from False ?v = u @ cleaned_of raw @ w" unfolding c by blast
  with single_spaced_collapse [of False ?v] have "single_spaced (u @ cleaned_of raw @ w)" by simp
  then have "single_spaced (cleaned_of raw)"
    using single_spaced_append by blast
  with e show "spaced (cleaned_of raw)" by (auto intro: spaced_of_single)
qed

lemma split_from_nonempty: "split_from f r p acc k s \<noteq> []"
  by (induction s arbitrary: p acc k) (auto split: option.splits)

lemma join_Cons: "xs \<noteq> [] \<Longrightarrow> join sep (x # xs) = x @ sep @ join sep xs"
  by (cases xs) simp_all

lemma spaced_ws_run:
  "spaced (c # s) \<Longrightarrow> is_ws c \<Longrightarrow> c = 0x20 \<and> s \<noteq> [] \<and> \<not> is_ws (hd s) \<and> takeWhile is_ws (c # s) = [c]"
  by (cases s) auto

lemma spaced_tl: "spaced (c # s) \<Longrightarrow> spaced s"
  by (simp split: if_splits)

lemma split_from_join:
  "spaced s \<Longrightarrow> join [0x20] (split_from flags_g re_sentence_end p acc 0 s) = acc @ s"
proof (induction s arbitrary: p acc)
  case Nil
  then show ?case by simp
next
  case (Cons c s)
  from Cons.prems have sp: "spaced s" by (rule spaced_tl)
  show ?case
  proof (cases "sentence_end p \<and> is_ws c")
    case True
    with spaced_ws_run [OF Cons.prems] have c: "c = 0x20" and run: "takeWhile is_ws (c # s) = [c]"
      by simp_all
    from True run have "split_from flags_g re_sentence_end p acc 0 (c # s)
        = acc # split_from flags_g re_sentence_end (Some c) [] 0 s"
      by (simp add: re_exec_sentence_end del: takeWhile.simps)
    with Cons.IH [OF sp, of "Some c" "[]"] c show ?thesis
      by (simp add: join_Cons split_from_nonempty)
  next
    case False
    then have "re_exec flags_g re_sentence_end p (c # s) = None"
      by (auto simp add: re_exec_sentence_end)
    then have "split_from flags_g re_sentence_end p acc 0 (c # s)
        = split_from flags_g re_sentence_end (Some c) (acc @ [c]) 0 s"
      by simp
    with Cons.IH [OF sp, of "Some c" "acc @ [c]"] show ?thesis by simp
  qed
qed

lemma sentence_end_not_ws: "sentence_end (Some q) \<Longrightarrow> \<not> is_ws q"
  by (auto simp: sentence_end_def chr_def is_ws_def white_space_def in_ranges_def)

lemma split_from_pieces:
  assumes "spaced s"
    and "acc = [] \<Longrightarrow> s \<noteq> [] \<and> \<not> is_ws (hd s)"
    and "acc \<noteq> [] \<Longrightarrow> \<not> is_ws (hd acc) \<and> p = Some (last acc) \<and> (is_ws (last acc) \<longrightarrow> s \<noteq> [] \<and> \<not> is_ws (hd s))"
    and "x \<in> set (split_from flags_g re_sentence_end p acc 0 s)"
  shows "x \<noteq> [] \<and> \<not> is_ws (hd x) \<and> \<not> is_ws (last x)"
  using assms
proof (induction s arbitrary: p acc)
  case Nil
  then show ?case by auto
next
  case (Cons c s)
  from Cons.prems(1) have sp: "spaced s" by (rule spaced_tl)
  show ?case
  proof (cases "sentence_end p \<and> is_ws c")
    case True
    with spaced_ws_run [OF Cons.prems(1)] have c: "c = 0x20" and run: "takeWhile is_ws (c # s) = [c]"
      and s: "s \<noteq> []" "\<not> is_ws (hd s)"
      by simp_all
    from True Cons.prems(2) have acc: "acc \<noteq> []" by auto
    with Cons.prems(3) True have a: "\<not> is_ws (hd acc)" "\<not> is_ws (last acc)"
      by (auto dest: sentence_end_not_ws)
    from True run have "split_from flags_g re_sentence_end p acc 0 (c # s)
        = acc # split_from flags_g re_sentence_end (Some c) [] 0 s"
      by (simp add: re_exec_sentence_end del: takeWhile.simps)
    with Cons.prems(4) consider "x = acc" | "x \<in> set (split_from flags_g re_sentence_end (Some c) [] 0 s)"
      by auto
    then show ?thesis
    proof cases
      case 1
      with acc a show ?thesis by simp
    next
      case 2
      show ?thesis
        by (rule Cons.IH [OF sp _ _ 2]) (use s in simp_all)
    qed
  next
    case False
    then have "re_exec flags_g re_sentence_end p (c # s) = None"
      by (auto simp add: re_exec_sentence_end)
    then have eq: "split_from flags_g re_sentence_end p acc 0 (c # s)
        = split_from flags_g re_sentence_end (Some c) (acc @ [c]) 0 s"
      by simp
    with Cons.prems(4) have mem: "x \<in> set (split_from flags_g re_sentence_end (Some c) (acc @ [c]) 0 s)"
      by simp
    have h: "\<not> is_ws (hd (acc @ [c]))"
      using Cons.prems(2,3) by (cases acc) auto
    have l: "is_ws c \<longrightarrow> s \<noteq> [] \<and> \<not> is_ws (hd s)"
      using spaced_ws_run [OF Cons.prems(1)] by simp
    show ?thesis
      by (rule Cons.IH [OF sp _ _ mem]) (use h l in simp_all)
  qed
qed

lemma sentences_of_cleaned:
  "sentences_of (cleaned_of raw) =
     (if cleaned_of raw = [] then [] else split_from flags_g re_sentence_end None [] 0 (cleaned_of raw))"
proof (cases "cleaned_of raw = []")
  case True
  have "sentences_of [] = []"
    by (simp add: sentences_of_def split_re_def re_exec_sentence_end sentence_end_def trim_def)
  with True show ?thesis by simp
next
  case False
  let ?c = "cleaned_of raw"
  let ?ps = "split_from flags_g re_sentence_end None [] 0 ?c"
  have pieces: "x \<noteq> [] \<and> \<not> is_ws (hd x) \<and> \<not> is_ws (last x)" if "x \<in> set ?ps" for x
    by (rule split_from_pieces [OF cleaned_of_tidy(1) _ _ that]) (use False cleaned_of_tidy(2) [of raw] in simp_all)
  then have "map trim ?ps = ?ps"
    by (intro map_idI trim_id) simp
  moreover from pieces have "filter (\<lambda>s. length s > 0) ?ps = ?ps"
    by (intro filter_True) simp
  ultimately show ?thesis using False by (simp add: sentences_of_def split_re_def)
qed

lemma sentences_join: "join [0x20] (sentences_of (cleaned_of raw)) = cleaned_of raw"
  using split_from_join [OF cleaned_of_tidy(1), of None "[]" raw]
  by (simp add: sentences_of_cleaned)

lemma join_take_prefix: "prefix (join sep (take n xs)) (join sep xs)"
proof (induction xs arbitrary: n)
  case Nil
  then show ?case by simp
next
  case (Cons x xs)
  show ?case
  proof (cases n)
    case 0
    then show ?thesis by simp
  next
    case (Suc m)
    show ?thesis
    proof (cases "take m xs = []")
      case True
      with Suc show ?thesis by (cases xs) simp_all
    next
      case False
      then have "xs \<noteq> []" by auto
      with False Suc Cons [of m] show ?thesis by (simp add: join_Cons)
    qed
  qed
qed

lemma join_sublist: "x \<in> set xs \<Longrightarrow> sublist x (join sep xs)"
proof (induction xs)
  case Nil
  then show ?case by simp
next
  case (Cons y xs)
  show ?case
  proof (cases xs)
    case Nil
    with Cons.prems show ?thesis by simp
  next
    case (Cons z zs)
    then have j: "join sep (y # xs) = y @ sep @ join sep xs" by simp
    from Cons.prems consider "x = y" | "x \<in> set xs" by auto
    then show ?thesis
    proof cases
      case 1
      then show ?thesis unfolding j by (simp add: sublist_append_rightI)
    next
      case 2
      from Cons.IH [OF 2] show ?thesis unfolding j by (simp add: sublist_append)
    qed
  qed
qed

lemma space_js: "js '' '' = [0x20]"
  by (simp add: js_simps chr_def)

lemma top_sentences_props:
  fixes xs :: "jsstring list"
  defines "sel \<equiv> top_sentences xs"
  shows "length sel = min 5 (length xs)"
    and "mset sel \<subseteq># mset xs"
    and "\<forall>x \<in> set sel. \<forall>y \<in># mset xs - mset sel. score y \<le> score x"
    and "sorted_wrt (\<lambda>x y. score y \<le> score x) sel"
proof -
  define k :: "jsstring \<times> nat \<Rightarrow> int" where "k = (\<lambda>a. - int (snd a))"
  define scored where "scored = sort_key k (map (\<lambda>s. (s, score s)) xs)"
  have sel: "sel = map fst (take 5 scored)"
    by (simp add: sel_def top_sentences_def Let_def scored_def k_def)
  have set_scored: "set scored = (\<lambda>s. (s, score s)) ` set xs"
    by (simp add: scored_def)
  have snd: "snd a = score (fst a)" if "a \<in> set scored" for a
    using that set_scored by auto
  have "mset scored = mset (map (\<lambda>s. (s, score s)) xs)"
    by (simp add: scored_def)
  then have "mset (map fst scored) = mset (map fst (map (\<lambda>s. (s, score s)) xs))"
    by (metis mset_map)
  then have perm: "mset (map fst scored) = mset xs"
    by (simp add: comp_def)
  have split: "map fst scored = sel @ map fst (drop 5 scored)"
    unfolding sel by (simp flip: map_append)
  with perm have sum: "mset xs = mset sel + mset (map fst (drop 5 scored))"
    by (metis mset_append)
  show "length sel = min 5 (length xs)"
    by (simp add: sel scored_def min.commute)
  from sum show "mset sel \<subseteq># mset xs" by simp
  have sorted: "sorted (map k scored)"
    by (simp add: scored_def)
  then have "sorted (map k (take 5 scored) @ map k (drop 5 scored))"
    by (simp flip: map_append)
  then have le: "k a \<le> k b" if "a \<in> set (take 5 scored)" "b \<in> set (drop 5 scored)" for a b
    using that by (auto simp: sorted_append)
  show "\<forall>x \<in> set sel. \<forall>y \<in># mset xs - mset sel. score y \<le> score x"
  proof (intro ballI)
    fix x y assume "x \<in> set sel" "y \<in># mset xs - mset sel"
    then obtain a b where a: "a \<in> set (take 5 scored)" "x = fst a"
      and b: "b \<in> set (drop 5 scored)" "y = fst b"
      unfolding sum sel by auto
    from a(1) b(1) have "a \<in> set scored" "b \<in> set scored"
      by (auto dest: in_set_takeD in_set_dropD)
    with le [OF a(1) b(1)] a(2) b(2) show "score y \<le> score x"
      by (simp add: k_def snd)
  qed
  from sorted have "sorted (map k (take 5 scored))"
    by (metis append_take_drop_id map_append sorted_append)
  then have sk: "sorted_wrt (\<lambda>a b. k a \<le> k b) (take 5 scored)"
    by (simp add: sorted_map)
  have "sorted_wrt (\<lambda>a b. score (fst b) \<le> score (fst a)) (take 5 scored)"
  proof (rule sorted_wrt_mono_rel [OF _ sk])
    fix a b assume ab: "a \<in> set (take 5 scored)" "b \<in> set (take 5 scored)" "k a \<le> k b"
    then have "a \<in> set scored" "b \<in> set scored" by (auto dest: in_set_takeD)
    with ab(3) show "score (fst b) \<le> score (fst a)" by (simp add: k_def snd)
  qed
  then show "sorted_wrt (\<lambda>x y. score y \<le> score x) sel"
    by (simp add: sel sorted_wrt_map)
qed

section \<open>Evaluation of the text chains\<close>

text \<open>
  C1. The claim is that a citation-style link is reduced to its link text. The citation step
  of \<open>cleanText\<close> replaces the whole match by the empty string instead, so the line below
  loses the link text \<open>source\<close> together with the URL.
\<close>

theorem cleanText_deletes_citation_text:
  "cleanText (js ''See [source](https://example.com) now'') = js ''See now''"
  by code_simp

text \<open>
  C2 (as amended). On the scenario input the text written to the clipboard is
  \<open>**bold** and a link\<close>: the chain reduces the link to its text and keeps the emphasis
  markers, since none of its patterns matches \<open>**bold**\<close>.
\<close>

theorem plain_text_scenario:
  "clipboard (handleCopyPlainText True (js ''**bold** and [a link](http://x.com)'') mid st)
     = Some (js ''**bold** and a link'')"
proof -
  have "plain_text (js ''**bold** and [a link](http://x.com)'') = js ''**bold** and a link''"
    by code_simp
  then show ?thesis by (simp add: handleCopyPlainText_def)
qed

text \<open>C2 as stated fails: the text written is not \<open>bold and a link\<close>.\<close>

theorem plain_text_scenario_counterexample:
  "clipboard (handleCopyPlainText True (js ''**bold** and [a link](http://x.com)'')
       (js ''m1'') \<lparr>clipboard = None, copiedMessageId = None\<rparr>)
     \<noteq> Some (js ''bold and a link'')"
proof -
  have "plain_text (js ''**bold** and [a link](http://x.com)'') = js ''**bold** and a link''"
    by code_simp
  moreover have "js ''**bold** and a link'' \<noteq> js ''bold and a link''"
    by code_simp
  ultimately show ?thesis by (simp add: handleCopyPlainText_def)
qed

section \<open>Pins\<close>

lemma pinned_handleTogglePin:
  "pinnedMessages (handleTogglePin enc can_store m st) = toggle_pin m (pinnedMessages st)"
  by (simp add: handleTogglePin_def setItem_def Let_def)

lemma toggle_pin_twice:
  "toggle_pin m (toggle_pin m xs) =
     (if m \<in> set xs then filter (\<lambda>id. id \<noteq> m) xs @ [m] else xs)"
proof (cases "m \<in> set xs")
  case True
  then show ?thesis by (simp add: toggle_pin_def)
next
  case False
  then have "filter (\<lambda>id. id \<noteq> m) xs = xs" by (induction xs) auto
  with False show ?thesis by (simp add: toggle_pin_def)
qed

lemma mset_remove_readd:
  "distinct xs \<Longrightarrow> m \<in> set xs \<Longrightarrow> mset (filter (\<lambda>id. id \<noteq> m) xs @ [m]) = mset xs"
proof (induction xs)
  case Nil
  then show ?case by simp
next
  case (Cons x xs)
  show ?case
  proof (cases "x = m")
    case True
    with Cons.prems have "m \<notin> set xs" by simp
    then have "filter (\<lambda>id. id \<noteq> m) xs = xs" by (induction xs) auto
    with True show ?thesis by simp
  next
    case False
    with Cons show ?thesis by simp
  qed
qed

text \<open>
  C6. Toggling the same message id twice gives a list with exactly the ids of the original
  list; nothing changes at all when the id was not pinned (pin, then unpin), and the ids
  agree as a multiset too when the original list has no duplicates (then a pinned id moves
  to the end).
\<close>

theorem handleTogglePin_twice:
  "set (pinnedMessages (handleTogglePin enc c2 m (handleTogglePin enc c1 m st)))
     = set (pinnedMessages st)
   \<and> (m \<notin> set (pinnedMessages st) \<longrightarrow>
        pinnedMessages (handleTogglePin enc c2 m (handleTogglePin enc c1 m st)) = pinnedMessages st)
   \<and> (distinct (pinnedMessages st) \<longrightarrow>
        mset (pinnedMessages (handleTogglePin enc c2 m (handleTogglePin enc c1 m st)))
          = mset (pinnedMessages st))"
proof -
  let ?xs = "pinnedMessages st"
  have eq: "pinnedMessages (handleTogglePin enc c2 m (handleTogglePin enc c1 m st))
      = (if m \<in> set ?xs then filter (\<lambda>id. id \<noteq> m) ?xs @ [m] else ?xs)"
    by (simp only: pinned_handleTogglePin toggle_pin_twice)
  have "set (if m \<in> set ?xs then filter (\<lambda>id. id \<noteq> m) ?xs @ [m] else ?xs) = set ?xs"
    by auto
  moreover have "distinct ?xs \<longrightarrow>
      mset (if m \<in> set ?xs then filter (\<lambda>id. id \<noteq> m) ?xs @ [m] else ?xs) = mset ?xs"
    using mset_remove_readd [of ?xs m] by simp
  ultimately show ?thesis
    unfolding eq by simp
qed

lemma demo_ids: "js ''m1'' \<noteq> js ''m2''" "js ''m3'' \<noteq> js ''m1''" "js ''m3'' \<noteq> js ''m2''"
  by code_simp+

theorem handleTogglePin_twice_witness:
  "js ''m3'' \<notin> set (pinnedMessages demo_state) \<and> distinct (pinnedMessages demo_state)
   \<and> pinnedMessages (handleTogglePin (\<lambda>x. []) True (js ''m3'')
        (handleTogglePin (\<lambda>x. []) True (js ''m3'') demo_state)) = [js ''m1'', js ''m2'']
   \<and> mset (pinnedMessages (handleTogglePin (\<lambda>x. []) True (js ''m1'')
        (handleTogglePin (\<lambda>x. []) True (js ''m1'') demo_state))) = mset [js ''m1'', js ''m2'']"
  using handleTogglePin_twice [of "\<lambda>x. []" True "js ''m3''" True demo_state]
    handleTogglePin_twice [of "\<lambda>x. []" True "js ''m1''" True demo_state] demo_ids
  by (simp add: demo_state_def)

text \<open>
  C10. Toggling a pin keeps the pinned list free of duplicates: unpinning removes every
  occurrence of the id, and pinning appends the id only when it is absent.
\<close>

theorem handleTogglePin_distinct:
  "distinct (pinnedMessages st) \<Longrightarrow> distinct (pinnedMessages (handleTogglePin enc can_store m st))"
  by (simp add: pinned_handleTogglePin toggle_pin_def)

theorem handleTogglePin_distinct_witness:
  "distinct (pinnedMessages demo_state)
   \<and> distinct (pinnedMessages (handleTogglePin (\<lambda>x. []) True (js ''m3'') demo_state))
   \<and> distinct (pinnedMessages (handleTogglePin (\<lambda>x. []) True (js ''m1'') demo_state))"
proof -
  have d: "distinct (pinnedMessages demo_state)"
    using demo_ids by (simp add: demo_state_def)
  show ?thesis
    using d handleTogglePin_distinct [OF d, of "\<lambda>x. []" True "js ''m3''"]
      handleTogglePin_distinct [OF d, of "\<lambda>x. []" True "js ''m1''"]
    by simp
qed

section \<open>Tags\<close>

lemma tags_handleSetTag:
  "messageTagsMap (handleSetTag enc can_store m t st) = (messageTagsMap st)(m \<mapsto> tag_text t)"
  by (simp add: handleSetTag_def setItem_def Let_def)

lemma tags_handleRemoveTag:
  "messageTagsMap (handleRemoveTag enc can_store m st) = (messageTagsMap st)(m := None)"
  by (simp add: handleRemoveTag_def setItem_def Let_def)

lemma tags_of_cases: "tags_of st m = {} \<or> (\<exists>t. tags_of st m = {t})"
  by (cases "messageTagsMap st m") (auto simp: tags_of_def)

text \<open>
  C7. Setting a tag replaces the tag the message had: afterwards the message has exactly the
  new tag, and every other message keeps what it had. After any sequence of tag settings and
  removals every message has no tag or exactly one.
\<close>

theorem handleSetTag_overwrites:
  "tags_of (handleSetTag enc can_store m t st) m = {tag_text t}
   \<and> (m' \<noteq> m \<longrightarrow> tags_of (handleSetTag enc can_store m t st) m' = tags_of st m')
   \<and> (tags_of (foldl (tag_step enc) st ops) m' = {}
        \<or> (\<exists>t'. tags_of (foldl (tag_step enc) st ops) m' = {t'}))"
  using tags_of_cases [of "foldl (tag_step enc) st ops" m']
  by (simp add: tags_of_def tags_handleSetTag)

theorem handleSetTag_overwrites_witness:
  "js ''m1'' \<noteq> js ''m2''
   \<and> tags_of (handleSetTag (\<lambda>x. []) True (js ''m2'') Decision
        (handleSetTag (\<lambda>x. []) True (js ''m2'') Action demo_state)) (js ''m2'') = {js ''decision''}
   \<and> tags_of (handleSetTag (\<lambda>x. []) True (js ''m2'') Decision
        (handleSetTag (\<lambda>x. []) True (js ''m1'') Action demo_state)) (js ''m1'') = {js ''action''}"
  using handleSetTag_overwrites [of "\<lambda>x. []" True "js ''m2''" Decision
      "handleSetTag (\<lambda>x. []) True (js ''m2'') Action demo_state" "js ''m1''" "[]"]
    handleSetTag_overwrites [of "\<lambda>x. []" True "js ''m2''" Decision
      "handleSetTag (\<lambda>x. []) True (js ''m1'') Action demo_state" "js ''m1''" "[]"]
    handleSetTag_overwrites [of "\<lambda>x. []" True "js ''m1''" Action demo_state "js ''m1''" "[]"]
    demo_ids
  by simp

section \<open>Rehydration\<close>

text \<open>
  C8. The two initialisers never throw: each returns the parsed value when the key holds a
  non-empty string that \<open>JSON.parse\<close> accepts, and the empty list (the empty object) when
  the key is absent, when the stored string is empty or malformed, and when reading the
  storage throws.
\<close>

theorem rehydration_never_throws:
  "init_pinnedMessages got parse =
     Inr (case got of
            Inr (Some s) \<Rightarrow>
              if s = [] then JArr [] else (case parse s of Inr v \<Rightarrow> v | Inl e \<Rightarrow> JArr [])
          | Inr None \<Rightarrow> JArr []
          | Inl e \<Rightarrow> JArr [])
   \<and> init_messageTagsMap got parse =
     Inr (case got of
            Inr (Some s) \<Rightarrow>
              if s = [] then JObj [] else (case parse s of Inr v \<Rightarrow> v | Inl e \<Rightarrow> JObj [])
          | Inr None \<Rightarrow> JObj []
          | Inl e \<Rightarrow> JObj [])"
  by (simp add: init_pinnedMessages_def init_messageTagsMap_def rehydrate_def try_catch_def
      split: sum.splits option.splits)

section \<open>HTML export\<close>

lemma markdownToHtml_nonempty:
  assumes "markdown_free s" and "s \<noteq> []"
  shows "markdownToHtml s = js ''<p>'' @ s @ js ''</p>''
    \<and> markdownToHtml_unwrapped s = js ''<p>'' @ s @ js ''</p>''"
proof -
  note D = markdown_free_D [OF assms(1)]
  let ?x = "js ''<p>'' @ s @ js ''</p>''"
  have hash: "\<And>d tm. gsub flags_gim (re_line (CHR ''#'' # d)) tm s = s"
    by (rule gsub_absent [OF D(1) cnt_patterns(1)])
  have star_line: "\<And>d tm. gsub flags_gim (re_line (CHR ''*'' # d)) tm s = s"
    by (rule gsub_absent [OF D(2) cnt_patterns(2)])
  have dash_line: "\<And>d tm. gsub flags_gim (re_line (CHR ''-'' # d)) tm s = s"
    by (rule gsub_absent [OF D(6) cnt_patterns(3)])
  have quote_line: "\<And>d tm. gsub flags_gim (re_line (CHR ''>'' # d)) tm s = s"
    by (rule gsub_absent [OF D(7) cnt_patterns(4)])
  have star: "\<And>d tm. gsub flags_gim (re_wrapped (CHR ''*'' # d)) tm s = s"
    by (rule gsub_absent [OF D(2) cnt_patterns(5)])
  have underscore: "\<And>d tm. gsub flags_gim (re_wrapped (CHR ''_'' # d)) tm s = s"
    by (rule gsub_absent [OF D(3) cnt_patterns(6)])
  have link: "\<And>tm. gsub flags_gim re_link tm s = s"
    by (rule gsub_absent [OF D(4) cnt_patterns(7)])
  have block: "\<And>tm. gsub flags_gim re_code_block tm s = s"
    by (rule gsub_absent [OF D(5) cnt_patterns(8)])
  have code: "\<And>tm. gsub flags_gim re_inline_code tm s = s"
    by (rule gsub_absent [OF D(5) cnt_patterns(9)])
  have items: "\<And>tm. sub1 flags_s re_list_items tm s = s"
    by (rule sub1_absent [OF D(7) cnt_patterns(10)])
  have rule: "\<And>tm. gsub flags_gim re_rule tm s = s"
    by (rule gsub_absent [OF D(6) cnt_patterns(11)])
  have para: "\<And>tm. gsub flags_gim (Seq (Lit nl) (Lit nl)) tm s = s"
    by (rule gsub_no_blank_line [OF D(8)])
  have empty: "gsub flags_gim (str ''<p></p>'') [] ?x = ?x"
    by (rule gsub_in_paragraph [OF D(7) cnt_cleanup(1) first_cleanup(1)
          empty_paragraph_whole [OF assms(2) D(7)]])
  have html: "markdownToHtml s = ?x"
    by (simp only: markdownToHtml_def Let_def hash star_line dash_line quote_line star
        underscore link block code items rule para empty)
  have c1: "\<And>tm. gsub flags_gim (re_p_then (seqs [str ''<h'', digit_1_6, str ''>''])) tm ?x = ?x"
    by (rule gsub_in_paragraph [OF D(7) cnt_cleanup(2) first_cleanup(2) p_then_heading_whole [OF D(7)]])
  have c2: "\<And>tm. gsub flags_gim (re_then_p (seqs [str ''</h'', digit_1_6, str ''>''])) tm ?x = ?x"
    by (rule gsub_in_paragraph [OF D(7) cnt_cleanup(3) first_cleanup(3) then_p_whole(1)])
  have c3: "\<And>tm. gsub flags_gim (re_p_then (str ''<ul>'')) tm ?x = ?x"
    by (rule gsub_in_paragraph [OF D(7) cnt_cleanup(4) first_cleanup(4) p_then_ul_whole [OF D(7)]])
  have c4: "\<And>tm. gsub flags_gim (re_then_p (str ''</ul>'')) tm ?x = ?x"
    by (rule gsub_in_paragraph [OF D(7) cnt_cleanup(5) first_cleanup(5) then_p_whole(2)])
  have c5: "\<And>tm. gsub flags_gim (re_p_then (str ''<pre>'')) tm ?x = ?x"
    by (rule gsub_in_paragraph [OF D(7) cnt_cleanup(6) first_cleanup(6) p_then_pre_whole [OF D(7)]])
  have c6: "\<And>tm. gsub flags_gim (re_then_p (str ''</pre>'')) tm ?x = ?x"
    by (rule gsub_in_paragraph [OF D(7) cnt_cleanup(7) first_cleanup(7) then_p_whole(3)])
  have "markdownToHtml_unwrapped s = ?x"
    by (simp only: markdownToHtml_unwrapped_def Let_def html c1 c2 c3 c4 c5 c6)
  with html show ?thesis by simp
qed

lemma markdownToHtml_empty: "markdownToHtml [] = [] \<and> markdownToHtml_unwrapped [] = []"
  by code_simp

text \<open>
  C3 (as amended). On input without markdown (none of \<open># * _ [ ` - >\<close> and no blank line)
  that is not empty, both copies of \<open>markdownToHtml\<close> return the input wrapped in one
  paragraph tag; on the empty input they return the empty string, since the empty paragraph
  is removed again.
\<close>

theorem markdownToHtml_plain:
  assumes "markdown_free s"
  shows "markdownToHtml s = (if s = [] then [] else js ''<p>'' @ s @ js ''</p>'')
    \<and> markdownToHtml_unwrapped s = (if s = [] then [] else js ''<p>'' @ s @ js ''</p>'')"
  using markdownToHtml_nonempty [OF assms] markdownToHtml_empty by simp

theorem markdownToHtml_plain_witness:
  "markdown_free (js ''Hello, world.'') \<and> js ''Hello, world.'' \<noteq> []
   \<and> markdownToHtml (js ''Hello, world.'') = js ''<p>Hello, world.</p>''
   \<and> markdownToHtml_unwrapped (js ''Hello, world.'') = js ''<p>Hello, world.</p>''"
proof -
  have h1: "markdown_free (js ''Hello, world.'')" by code_simp
  have h2: "js ''Hello, world.'' \<noteq> []" by (simp add: js_simps)
  show ?thesis
    using h1 h2 markdownToHtml_plain [OF h1] by (simp add: js_def)
qed

text \<open>
  C3 as stated fails on the empty input, which has no markdown in it: the result is not
  \<open><p></p>\<close>.
\<close>

theorem markdownToHtml_plain_counterexample:
  "markdown_free [] \<and> markdownToHtml [] \<noteq> js ''<p>'' @ [] @ js ''</p>''
   \<and> markdownToHtml_unwrapped [] \<noteq> js ''<p>'' @ [] @ js ''</p>''"
  by code_simp

section \<open>Fenced blocks in the plain-text copy\<close>








section \<open>Summary and highlights\<close>

text \<open>
  C4. When the cleaned text is not empty, the summary stored for the message is the first
  three sentences (all of them when there are fewer) joined by single spaces; the sentences
  joined by single spaces are the cleaned text itself, so the summary is an initial part of
  the cleaned text, and every sentence stands in it verbatim. When the cleaned text is empty
  nothing is stored.
\<close>

theorem handleGenerateSummary_first_sentences:
  "summaryByMessage (handleGenerateSummary content mid st) mid =
     (if cleaned_of content = [] then summaryByMessage st mid
      else Some (join (js '' '') (take 3 (sentences_of (cleaned_of content)))))
   \<and> join (js '' '') (sentences_of (cleaned_of content)) = cleaned_of content
   \<and> prefix (join (js '' '') (take 3 (sentences_of (cleaned_of content)))) (cleaned_of content)
   \<and> (\<forall>x \<in> set (sentences_of (cleaned_of content)). x \<noteq> [] \<and> sublist x (cleaned_of content))"
proof -
  let ?c = "cleaned_of content"
  let ?ss = "sentences_of ?c"
  have 1: "summaryByMessage (handleGenerateSummary content mid st) mid =
     (if ?c = [] then summaryByMessage st mid else Some (join (js '' '') (take 3 ?ss)))"
    by (simp add: handleGenerateSummary_def Let_def)
  have 2: "join (js '' '') ?ss = ?c"
    unfolding space_js by (rule sentences_join)
  have 3: "prefix (join (js '' '') (take 3 ?ss)) ?c"
    using join_take_prefix [of "js '' ''" 3 ?ss] 2 by simp
  have 4: "x \<noteq> [] \<and> sublist x ?c" if "x \<in> set ?ss" for x
  proof
    from that show "x \<noteq> []" by (auto simp: sentences_of_def)
    from join_sublist [OF that, of "js '' ''"] 2 show "sublist x ?c" by simp
  qed
  from 1 2 3 4 show ?thesis by blast
qed

theorem handleGenerateSummary_first_sentences_witness:
  "js ''Two!'' \<in> set (sentences_of (cleaned_of story))
   \<and> sublist (js ''Two!'') (cleaned_of story)
   \<and> cleaned_of story = js ''Notes One is first. Two! Three? Four.''
   \<and> summaryByMessage (handleGenerateSummary story (js ''m1'') demo_state) (js ''m1'')
       = Some (js ''Notes One is first. Two! Three?'')"
proof -
  have m: "js ''Two!'' \<in> set (sentences_of (cleaned_of story))" by code_simp
  have c: "cleaned_of story = js ''Notes One is first. Two! Three? Four.''" by code_simp
  have s: "join (js '' '') (take 3 (sentences_of (cleaned_of story))) = js ''Notes One is first. Two! Three?''"
    by code_simp
  have n: "js ''Notes One is first. Two! Three? Four.'' \<noteq> []" by (simp add: js_simps)
  from handleGenerateSummary_first_sentences [of story "js ''m1''" demo_state] m c s n
  show ?thesis by auto
qed

text \<open>
  C5. When the cleaned text is not empty, the list stored for the message has at most five
  entries (five when there are five sentences or more); every entry is one of the sentences,
  is not empty and stands verbatim in the cleaned text; the entries are in descending order of
  score (length capped at 300), and no sentence left out has a higher score than an entry.
  The sentences are the pieces between the white space that follows \<open>.\<close>, \<open>!\<close> or \<open>?\<close>:
  joined by single spaces they are the cleaned text. When the cleaned text is empty nothing is
  stored.
\<close>

theorem handleGenerateHighlights_top_five:
  "highlightsByMessage (handleGenerateHighlights content mid st) mid =
     (if cleaned_of content = [] then highlightsByMessage st mid
      else Some (top_sentences (sentences_of (cleaned_of content))))
   \<and> length (top_sentences (sentences_of (cleaned_of content))) \<le> 5
   \<and> length (top_sentences (sentences_of (cleaned_of content)))
       = min 5 (length (sentences_of (cleaned_of content)))
   \<and> join (js '' '') (sentences_of (cleaned_of content)) = cleaned_of content
   \<and> mset (top_sentences (sentences_of (cleaned_of content))) \<subseteq># mset (sentences_of (cleaned_of content))
   \<and> (\<forall>x \<in> set (top_sentences (sentences_of (cleaned_of content))).
         x \<in> set (sentences_of (cleaned_of content)) \<and> x \<noteq> [] \<and> sublist x (cleaned_of content))
   \<and> (\<forall>x \<in> set (top_sentences (sentences_of (cleaned_of content))).
        \<forall>y \<in># mset (sentences_of (cleaned_of content)) - mset (top_sentences (sentences_of (cleaned_of content))).
          score y \<le> score x)
   \<and> sorted_wrt (\<lambda>x y. score y \<le> score x) (top_sentences (sentences_of (cleaned_of content)))"
proof -
  let ?c = "cleaned_of content"
  let ?ss = "sentences_of ?c"
  let ?top = "top_sentences ?ss"
  note P = top_sentences_props [of ?ss]
  have 1: "highlightsByMessage (handleGenerateHighlights content mid st) mid =
     (if ?c = [] then highlightsByMessage st mid else Some ?top)"
    by (simp add: handleGenerateHighlights_def Let_def)
  have 2: "length ?top \<le> 5" using P(1) by simp
  have 3: "join (js '' '') ?ss = ?c"
    unfolding space_js by (rule sentences_join)
  have 4: "x \<in> set ?ss \<and> x \<noteq> [] \<and> sublist x ?c" if "x \<in> set ?top" for x
  proof -
    from that P(2) have m: "x \<in> set ?ss"
      by (metis mset_subset_eqD set_mset_mset)
    then have "x \<noteq> []" by (auto simp: sentences_of_def)
    moreover from join_sublist [OF m, of "js '' ''"] 3 have "sublist x ?c" by simp
    ultimately show ?thesis using m by simp
  qed
  from 1 2 3 4 P show ?thesis by blast
qed

theorem handleGenerateHighlights_top_five_witness:
  "highlightsByMessage (handleGenerateHighlights six (js ''m1'') demo_state) (js ''m1'')
       = Some [js ''Ffffff.'', js ''Eeeee.'', js ''Dddd.'', js ''Ccc.'', js ''Bb.'']
   \<and> js ''Bb.'' \<in> set (top_sentences (sentences_of (cleaned_of six)))
   \<and> js ''A.'' \<in># mset (sentences_of (cleaned_of six)) - mset (top_sentences (sentences_of (cleaned_of six)))
   \<and> sublist (js ''Bb.'') (cleaned_of six)
   \<and> score (js ''A.'') \<le> score (js ''Bb.'')"
proof -
  have c: "cleaned_of six \<noteq> []" by code_simp
  have t: "top_sentences (sentences_of (cleaned_of six))
      = [js ''Ffffff.'', js ''Eeeee.'', js ''Dddd.'', js ''Ccc.'', js ''Bb.'']" by code_simp
  have s: "sentences_of (cleaned_of six)
      = [js ''A.'', js ''Bb.'', js ''Ccc.'', js ''Dddd.'', js ''Eeeee.'', js ''Ffffff.'']" by code_simp
  have m: "js ''Bb.'' \<in> set (top_sentences (sentences_of (cleaned_of six)))"
    unfolding t by simp
  have n: "js ''A.'' \<in># mset (sentences_of (cleaned_of six)) - mset (top_sentences (sentences_of (cleaned_of six)))"
    by (simp only: t, simp only: s, simp)
  from handleGenerateHighlights_top_five [of six "js ''m1''" demo_state] c t m n
  show ?thesis by auto
qed

end
